theory Spec2Isabelle
  imports Complex_Main "HOL-Library.AList" "HOL-Library.Char_ord" "HOL-Library.List_Lexorder"
begin

section \<open>Data model (types.ts)\<close>

text \<open>
  Account and transaction ids are JavaScript strings, modelled as \<open>string\<close> with the
  lexicographic order on character codes; JavaScript compares UTF-16 code units, which is
  the same order for ids of 8-bit characters (the properties below that involve the order
  hold for every linear order on ids). A \<open>Date\<close> is modelled by its \<open>getTime()\<close>
  value, an integer number of milliseconds (the dates of a validated batch are valid). An
  \<open>amount\<close> is a finite number, modelled as a real; the only place where the analysis can
  leave the finite numbers is the division of the payroll classifier, which is modelled with
  an explicit result type below.
  Sums of amounts (the totals of the node statistics) are exact, where the source rounds to
  doubles; no property below depends on them.
  The field \<open>processing_time_seconds\<close> of the summary is a wall-clock reading and is left
  out of the model.
\<close>

record Transaction =
  transaction_id :: string
  sender_id :: string
  receiver_id :: string
  amount :: real
  timestamp :: int

record EdgeInfo =
  target :: string
  edge_amount :: real
  edge_timestamp :: int
  edge_transaction_id :: string

record NodeStats =
  inDegree :: nat
  outDegree :: nat
  totalAmountIn :: real
  totalAmountOut :: real
  totalTransactions :: nat

record FraudRing =
  ring_id :: string
  member_accounts :: "string list"
  pattern_type :: string
  risk_score :: nat

record SuspiciousAccount =
  account_id :: string
  suspicion_score :: nat
  detected_patterns :: "string list"
  first_ring_id :: "string option"

record GraphNode =
  node_id :: string
  suspicious :: bool
  node_suspicion_score :: nat
  ring_ids :: "string list"
  in_degree :: nat
  out_degree :: nat
  total_amount_in :: real
  total_amount_out :: real

record GraphEdge =
  edge_source :: string
  edge_target :: string
  graph_edge_amount :: real
  graph_edge_transaction_id :: string
  graph_edge_timestamp :: int

record Summary =
  total_accounts_analyzed :: nat
  suspicious_accounts_flagged :: nat
  fraud_rings_detected :: nat

record GraphData =
  nodes :: "GraphNode list"
  edges :: "GraphEdge list"

record AnalysisResult =
  suspicious_accounts :: "SuspiciousAccount list"
  fraud_rings :: "FraudRing list"
  summary :: Summary
  graph :: GraphData

datatype error = TypeError

section \<open>Containers\<close>

text \<open>
  A JavaScript \<open>Set\<close> iterates in insertion order: it is a list without repetition, and
  \<open>add\<close> appends an element that is not yet there. A \<open>Map\<close> is an association list
  with \<open>AList.update\<close> (which keeps the position of an existing key and appends a new one)
  and \<open>map_of\<close>. The plain objects \<open>adjList\<close> and \<open>reverseAdj\<close> are only ever indexed,
  so they are finite maps on their own properties.
\<close>

definition setAdd :: "'a \<Rightarrow> 'a list \<Rightarrow> 'a list" where
  "setAdd x s = (if x \<in> set s then s else s @ [x])"

definition mkSet :: "'a list \<Rightarrow> 'a list" where
  "mkSet xs = fold setAdd xs []"

type_synonym AdjList = "string \<rightharpoonup> EdgeInfo list"

definition edgesOf :: "AdjList \<Rightarrow> string \<Rightarrow> EdgeInfo list" where
  "edgesOf adj k = (case adj k of None \<Rightarrow> [] | Some es \<Rightarrow> es)"

definition pushEdge :: "string \<Rightarrow> EdgeInfo \<Rightarrow> AdjList \<Rightarrow> AdjList" where
  "pushEdge k e adj = adj(k \<mapsto> edgesOf adj k @ [e])"

section \<open>Graph construction (analyzeTransactions, lines 24-50)\<close>

text \<open>
  \<open>adjList\<close> and \<open>reverseAdj\<close> are created as \<open>{}\<close>, so they inherit the properties of
  \<open>Object.prototype\<close>. For an id that names one of them, \<open>adjList[id]\<close> is that inherited
  (truthy) value, the array is not created and \<open>.push\<close> is not a function: the loop throws.
\<close>

definition protoKeys :: "string list" where
  "protoKeys = [''constructor'', ''__defineGetter__'', ''__defineSetter__'', ''hasOwnProperty'',
     ''__lookupGetter__'', ''__lookupSetter__'', ''isPrototypeOf'', ''propertyIsEnumerable'',
     ''toString'', ''valueOf'', ''__proto__'', ''toLocaleString'']"

record Graph =
  adjList :: AdjList
  reverseAdj :: AdjList
  allNodes :: "string list"

definition emptyGraph :: Graph where
  "emptyGraph = \<lparr>adjList = Map.empty, reverseAdj = Map.empty, allNodes = []\<rparr>"

definition addTx :: "Transaction \<Rightarrow> Graph \<Rightarrow> Graph" where
  "addTx tx g =
     \<lparr>adjList = pushEdge (sender_id tx)
        \<lparr>target = receiver_id tx, edge_amount = amount tx, edge_timestamp = timestamp tx,
         edge_transaction_id = transaction_id tx\<rparr> (adjList g),
      reverseAdj = pushEdge (receiver_id tx)
        \<lparr>target = sender_id tx, edge_amount = amount tx, edge_timestamp = timestamp tx,
         edge_transaction_id = transaction_id tx\<rparr> (reverseAdj g),
      allNodes = setAdd (receiver_id tx) (setAdd (sender_id tx) (allNodes g))\<rparr>"

fun buildGraph :: "Graph \<Rightarrow> Transaction list \<Rightarrow> error + Graph" where
  "buildGraph g [] = Inr g"
| "buildGraph g (tx # txs) =
     (if sender_id tx \<in> set protoKeys \<or> receiver_id tx \<in> set protoKeys then Inl TypeError
      else buildGraph (addTx tx g) txs)"

definition mkStats :: "Graph \<Rightarrow> string \<Rightarrow> NodeStats" where
  "mkStats g i =
     (let out = edgesOf (adjList g) i; inc = edgesOf (reverseAdj g) i in
      \<lparr>inDegree = length inc, outDegree = length out,
       totalAmountIn = fold (\<lambda>e s. s + edge_amount e) inc 0,
       totalAmountOut = fold (\<lambda>e s. s + edge_amount e) out 0,
       totalTransactions = length inc + length out\<rparr>)"

definition computeStats :: "Graph \<Rightarrow> (string \<times> NodeStats) list" where
  "computeStats g = map (\<lambda>i. (i, mkStats g i)) (allNodes g)"

section \<open>Cycle detection (findCycles)\<close>

text \<open>
  \<open>dfs\<close> is the inner closure: \<open>path\<close> is the current path, and the set \<open>inPath\<close>, which
  the source pushes to and deletes from together with \<open>path\<close>, is the set of its elements.
  The result is the list of cycles the call pushes to \<open>allCycles\<close>, in the order of pushing.
\<close>

function dfs :: "AdjList \<Rightarrow> string \<Rightarrow> string list \<Rightarrow> nat \<Rightarrow> nat \<Rightarrow> string list \<Rightarrow> string \<Rightarrow> nat
    \<Rightarrow> string list list" where
  "dfs adj start processed minLen maxLen path current depth =
     concat (map (\<lambda>edge.
        if target edge = start \<and> minLen \<le> depth + 1 \<and> depth + 1 \<le> maxLen then [path]
        else if target edge \<notin> set path \<and> target edge \<notin> set processed \<and> depth + 1 < maxLen
        then dfs adj start processed minLen maxLen (path @ [target edge]) (target edge) (depth + 1)
        else []) (edgesOf adj current))"
  by pat_completeness auto
termination
  by (relation "measure (\<lambda>(adj, start, processed, minLen, maxLen, path, current, depth). maxLen - depth)")
     auto

declare dfs.simps [simp del]

fun searchFrom :: "AdjList \<Rightarrow> nat \<Rightarrow> nat \<Rightarrow> string list \<Rightarrow> string list \<Rightarrow> string list list" where
  "searchFrom adj minLen maxLen processed [] = []"
| "searchFrom adj minLen maxLen processed (start # rest) =
     dfs adj start processed minLen maxLen [start] start 0
     @ searchFrom adj minLen maxLen (setAdd start processed) rest"

fun join :: "string \<Rightarrow> string list \<Rightarrow> string" where
  "join sep [] = []"
| "join sep [x] = x"
| "join sep (x # y # ys) = x @ sep @ join sep (y # ys)"

definition indexOf :: "'a list \<Rightarrow> 'a \<Rightarrow> nat" where
  "indexOf xs x = length (takeWhile (\<lambda>y. y \<noteq> x) xs)"

definition normalizeCycle :: "string list \<Rightarrow> string list" where
  "normalizeCycle cycle =
     (case cycle of [] \<Rightarrow> []
      | c # _ \<Rightarrow>
         (let minId = fold (\<lambda>i m. if i < m then i else m) cycle c;
              idx = indexOf cycle minId
          in drop idx cycle @ take idx cycle))"

definition cycleKey :: "string list \<Rightarrow> string" where
  "cycleKey normalized = join ''|'' normalized"

definition dedupeStep :: "string list \<Rightarrow> string list \<times> string list list
    \<Rightarrow> string list \<times> string list list" where
  "dedupeStep cycle st =
     (let normalized = normalizeCycle cycle; key = cycleKey normalized in
      if key \<in> set (fst st) then st else (fst st @ [key], snd st @ [normalized]))"

definition dedupe :: "string list list \<Rightarrow> string list list" where
  "dedupe allCycles = snd (fold dedupeStep allCycles ([], []))"

definition findCycles :: "AdjList \<Rightarrow> string list \<Rightarrow> nat \<Rightarrow> nat \<Rightarrow> string list list" where
  "findCycles adj nodeSet minLen maxLen = dedupe (searchFrom adj minLen maxLen [] nodeSet)"

section \<open>Smurfing (detectSmurfing)\<close>

text \<open>
  A hit is \<open>{type, accounts}\<close>. \<open>groupBy\<close> is the loop that fills \<open>byReceiver\<close>
  (\<open>bySender\<close>); \<open>Array.prototype.sort\<close> is stable, as \<open>sort_key\<close> is
  (\<open>sortedTxs\<close> is the source's \<open>sorted\<close>). \<open>scanAnchors\<close>
  is the loop over the index \<open>i\<close> with its \<open>break\<close>: it returns the distinct counterparties
  of the first window that reaches the threshold. The parameter \<open>nodeStats\<close> of the source
  is not used by it.
\<close>

record PatternHit =
  ptype :: string
  accounts :: "string list"

definition WINDOW_MS :: int where
  "WINDOW_MS = 72 * 3600000"

definition groupPush :: "(Transaction \<Rightarrow> string) \<Rightarrow> Transaction
    \<Rightarrow> (string \<times> Transaction list) list \<Rightarrow> (string \<times> Transaction list) list" where
  "groupPush key tx m =
     AList.update (key tx) ((case map_of m (key tx) of None \<Rightarrow> [] | Some ts \<Rightarrow> ts) @ [tx]) m"

definition groupBy :: "(Transaction \<Rightarrow> string) \<Rightarrow> Transaction list
    \<Rightarrow> (string \<times> Transaction list) list" where
  "groupBy key transactions = fold (groupPush key) transactions []"

definition windowTxs :: "Transaction list \<Rightarrow> Transaction \<Rightarrow> Transaction list" where
  "windowTxs sortedTxs a =
     (let windowEnd = timestamp a + WINDOW_MS in
      filter (\<lambda>t. timestamp a \<le> timestamp t \<and> timestamp t \<le> windowEnd) sortedTxs)"

fun scanAnchors :: "(Transaction \<Rightarrow> string) \<Rightarrow> Transaction list \<Rightarrow> Transaction list
    \<Rightarrow> string list option" where
  "scanAnchors other sortedTxs [] = None"
| "scanAnchors other sortedTxs (a # rest) =
     (let uniqueOthers = mkSet (map other (windowTxs sortedTxs a)) in
      if 10 \<le> length uniqueOthers then Some uniqueOthers
      else scanAnchors other sortedTxs rest)"

definition fanHits :: "string \<Rightarrow> (Transaction \<Rightarrow> string) \<Rightarrow> (Transaction \<Rightarrow> string)
    \<Rightarrow> Transaction list \<Rightarrow> PatternHit list" where
  "fanHits tag key other transactions =
     concat (map (\<lambda>(k, txs).
        (let sortedTxs = sort_key timestamp txs in
         case scanAnchors other sortedTxs sortedTxs of
           None \<Rightarrow> []
         | Some uniqueOthers \<Rightarrow> [\<lparr>ptype = tag, accounts = k # uniqueOthers\<rparr>]))
       (groupBy key transactions))"

definition detectSmurfing :: "Transaction list \<Rightarrow> PatternHit list" where
  "detectSmurfing transactions =
     fanHits ''fan_in'' receiver_id sender_id transactions
     @ fanHits ''fan_out'' sender_id receiver_id transactions"

section \<open>Shell networks (detectShellNetworks)\<close>

text \<open>
  \<open>extendChain\<close> is the \<open>while (chain.length < 8)\<close> loop; the set \<open>visited\<close> of the
  source holds exactly the elements of \<open>chain\<close> whenever the loop tests it. The separator
  of the key is the arrow U+2192, written here as its three UTF-8 bytes.
\<close>

definition isShell :: "(string \<times> NodeStats) list \<Rightarrow> string \<Rightarrow> bool" where
  "isShell nodeStats i =
     (case map_of nodeStats i of None \<Rightarrow> False | Some s \<Rightarrow> totalTransactions s \<le> 3)"

function extendChain :: "AdjList \<Rightarrow> (string \<times> NodeStats) list \<Rightarrow> string list \<Rightarrow> string
    \<Rightarrow> string list" where
  "extendChain adj nodeStats chain current =
     (if length chain < 8 then
        (let nextEdges = filter (\<lambda>e. target e \<notin> set chain) (edgesOf adj current) in
         case find (\<lambda>e. isShell nodeStats (target e)) nextEdges of
           Some nextShell \<Rightarrow>
             extendChain adj nodeStats (chain @ [target nextShell]) (target nextShell)
         | None \<Rightarrow> (case nextEdges of [] \<Rightarrow> chain | e # _ \<Rightarrow> chain @ [target e]))
      else chain)"
  by pat_completeness auto
termination
  by (relation "measure (\<lambda>(adj, nodeStats, chain, current). 8 - length chain)") auto

declare extendChain.simps [simp del]

definition arrow :: string where
  "arrow = [CHR 0xE2, CHR 0x86, CHR 0x92]"

definition shellFromEdge :: "AdjList \<Rightarrow> (string \<times> NodeStats) list \<Rightarrow> string \<Rightarrow> EdgeInfo
    \<Rightarrow> string list \<times> string list list \<Rightarrow> string list \<times> string list list" where
  "shellFromEdge adj nodeStats start edge st =
     (case map_of nodeStats (target edge) of
        None \<Rightarrow> st
      | Some firstStats \<Rightarrow>
          if 3 < totalTransactions firstStats then st
          else
            (let chain = extendChain adj nodeStats [start, target edge] (target edge) in
             if 4 \<le> length chain then
               (let key = join arrow chain in
                if key \<in> set (fst st) then st else (fst st @ [key], snd st @ [chain]))
             else st))"

definition shellFromStart :: "AdjList \<Rightarrow> (string \<times> NodeStats) list \<Rightarrow> string
    \<Rightarrow> string list \<times> string list list \<Rightarrow> string list \<times> string list list" where
  "shellFromStart adj nodeStats start st =
     (case map_of nodeStats start of
        None \<Rightarrow> st
      | Some startStats \<Rightarrow>
          if totalTransactions startStats \<le> 3 then st
          else fold (shellFromEdge adj nodeStats start) (edgesOf adj start) st)"

definition detectShellNetworks :: "AdjList \<Rightarrow> (string \<times> NodeStats) list \<Rightarrow> string list
    \<Rightarrow> string list list" where
  "detectShellNetworks adj nodeStats nodeSet =
     snd (fold (shellFromStart adj nodeStats) nodeSet ([], []))"

section \<open>False-positive filters (detectMerchants, detectPayroll)\<close>

text \<open>
  Both loops run over the entries of \<open>nodeStats\<close> and add ids to a set; the entries have
  distinct keys, so the set is the list of the ids that pass, in that order.
  \<open>Math.max(...ts)\<close> of a non-empty array is its greatest element; on the empty array
  the difference is \<open>-Infinity\<close>, which is not greater than 168.
\<close>

definition isMerchant :: "Transaction list \<Rightarrow> string \<Rightarrow> NodeStats \<Rightarrow> bool" where
  "isMerchant transactions i stats =
     (if inDegree stats < 20 then False
      else
        (let incoming = filter (\<lambda>t. receiver_id t = i) transactions;
             uniqueSenders = mkSet (map sender_id incoming)
         in if 15 \<le> length uniqueSenders then
              (case map timestamp incoming of
                 [] \<Rightarrow> False
               | t # ts \<Rightarrow> 168 < real_of_int (fold max ts t - fold min ts t) / 3600000)
            else False))"

definition detectMerchants :: "(string \<times> NodeStats) list \<Rightarrow> Transaction list \<Rightarrow> string list" where
  "detectMerchants nodeStats transactions =
     map fst (filter (\<lambda>(i, stats). isMerchant transactions i stats) nodeStats)"

text \<open>
  The quotient \<open>Math.sqrt(variance) / mean\<close> is the one division whose divisor can be zero.
  IEEE division of finite numbers by (positive) zero gives \<open>NaN\<close> for \<open>0 / 0\<close> and an
  infinity otherwise, and every comparison with \<open>NaN\<close> is false. The sums, the mean and the
  variance are computed in exact real arithmetic: the rounding, the overflow and the negative
  zero of IEEE doubles are not modelled, so the model agrees with the source only where these
  computations are exact. What is proved about the quotient is stated for the case in which
  every amount of the account, and with it every intermediate value, is exactly 0.
  \<open>payrollCheck\<close> is the body of the loop for one entry: \<open>Skipped\<close> is the \<open>continue\<close>,
  \<open>Evaluated r\<close> says that the quotient was computed, with value \<open>r\<close>.
\<close>

datatype jsnum = Num real | PosInf | NegInf | NaN

definition js_div :: "real \<Rightarrow> real \<Rightarrow> jsnum" where
  "js_div x y =
     (if y = 0 then (if x = 0 then NaN else if 0 < x then PosInf else NegInf)
      else Num (x / y))"

definition js_lt :: "jsnum \<Rightarrow> real \<Rightarrow> bool" where
  "js_lt a b = (case a of Num x \<Rightarrow> x < b | PosInf \<Rightarrow> False | NegInf \<Rightarrow> True | NaN \<Rightarrow> False)"

definition meanOf :: "real list \<Rightarrow> real" where
  "meanOf amounts = fold (\<lambda>b a. a + b) amounts 0 / real (length amounts)"

definition varianceOf :: "real list \<Rightarrow> real" where
  "varianceOf amounts =
     fold (\<lambda>a s. s + (a - meanOf amounts) ^ 2) amounts 0 / real (length amounts)"

definition cvRatio :: "real list \<Rightarrow> jsnum" where
  "cvRatio amounts =
     (case amounts of [] \<Rightarrow> NaN
      | _ # _ \<Rightarrow> js_div (sqrt (varianceOf amounts)) (meanOf amounts))"

datatype payrollOutcome = Skipped | Evaluated jsnum

definition payrollCheck :: "Transaction list \<Rightarrow> string \<Rightarrow> NodeStats \<Rightarrow> payrollOutcome" where
  "payrollCheck transactions i stats =
     (if outDegree stats < 10 then Skipped
      else
        (let outgoing = filter (\<lambda>t. sender_id t = i) transactions;
             amounts = map amount outgoing
         in Evaluated (cvRatio amounts)))"

definition isPayroll :: "Transaction list \<Rightarrow> string \<Rightarrow> NodeStats \<Rightarrow> bool" where
  "isPayroll transactions i stats =
     (case payrollCheck transactions i stats of
        Skipped \<Rightarrow> False
      | Evaluated r \<Rightarrow> js_lt r 0.15)"

definition detectPayroll :: "(string \<times> NodeStats) list \<Rightarrow> Transaction list \<Rightarrow> string list" where
  "detectPayroll nodeStats transactions =
     map fst (filter (\<lambda>(i, stats). isPayroll transactions i stats) nodeStats)"

section \<open>Rings and scores (analyzeTransactions, lines 62-112)\<close>

text \<open>
  \<open>RingState\<close> holds the four variables the closure \<open>addRing\<close> updates.
  \<open>digits\<close> is \<open>String(n)\<close> for a natural number; \<open>getOr m k\<close> is \<open>m.get(k) || []\<close>
  and \<open>mapHas m k\<close> is \<open>m.has(k)\<close>.
\<close>

record RingState =
  ringCounter :: nat
  fraudRings :: "FraudRing list"
  acctRings :: "(string \<times> string list) list"
  acctPatterns :: "(string \<times> string list) list"

definition initRingState :: RingState where
  "initRingState = \<lparr>ringCounter = 0, fraudRings = [], acctRings = [], acctPatterns = []\<rparr>"

fun digits :: "nat \<Rightarrow> string" where
  "digits n =
     (if n < 10 then [''0123456789'' ! n]
      else digits (n div 10) @ [''0123456789'' ! (n mod 10)])"

declare digits.simps [simp del]

definition padStart :: "nat \<Rightarrow> char \<Rightarrow> string \<Rightarrow> string" where
  "padStart n c s = replicate (n - length s) c @ s"

definition getOr :: "('k \<times> 'v list) list \<Rightarrow> 'k \<Rightarrow> 'v list" where
  "getOr m k = (case map_of m k of None \<Rightarrow> [] | Some v \<Rightarrow> v)"

definition mapHas :: "('k \<times> 'v) list \<Rightarrow> 'k \<Rightarrow> bool" where
  "mapHas m k \<longleftrightarrow> map_of m k \<noteq> None"

definition addMember :: "string \<Rightarrow> string \<Rightarrow> string \<Rightarrow> RingState \<Rightarrow> RingState" where
  "addMember ringId patternTag i st =
     st\<lparr>acctRings := AList.update i (getOr (acctRings st) i @ [ringId]) (acctRings st),
        acctPatterns := AList.update i (setAdd patternTag (getOr (acctPatterns st) i)) (acctPatterns st)\<rparr>"

definition addRing :: "string list \<Rightarrow> string list \<Rightarrow> string \<Rightarrow> nat \<Rightarrow> string \<Rightarrow> RingState
    \<Rightarrow> RingState" where
  "addRing legit members patternType baseScore patternTag st =
     (let filtered = filter (\<lambda>i. i \<notin> set legit) members in
      if length filtered < 2 then st
      else
        (let n = ringCounter st + 1;
             ringId = ''RING_'' @ padStart 3 (CHR ''0'') (digits n)
         in fold (addMember ringId patternTag) filtered
              (st\<lparr>ringCounter := n,
                  fraudRings := fraudRings st @
                    [\<lparr>ring_id = ringId, member_accounts = filtered, pattern_type = patternType,
                      risk_score = min 100 (baseScore + length filtered * 2)\<rparr>]\<rparr>)))"

definition addCycleRings :: "string list \<Rightarrow> string list list \<Rightarrow> RingState \<Rightarrow> RingState" where
  "addCycleRings legit cycles st =
     fold (\<lambda>cycle. addRing legit cycle ''cycle'' (75 + length cycle * 3)
                     (''cycle_length_'' @ digits (length cycle))) cycles st"

definition addSmurfRings :: "string list \<Rightarrow> PatternHit list \<Rightarrow> RingState \<Rightarrow> RingState" where
  "addSmurfRings legit smurfing st =
     fold (\<lambda>p. addRing legit (accounts p) (ptype p) 65 (ptype p)) smurfing st"

definition addShellRings :: "string list \<Rightarrow> string list list \<Rightarrow> RingState \<Rightarrow> RingState" where
  "addShellRings legit shells st =
     fold (\<lambda>chain. addRing legit chain ''shell_network'' 70 ''shell_network'') shells st"

definition buildRings :: "string list \<Rightarrow> string list list \<Rightarrow> PatternHit list \<Rightarrow> string list list
    \<Rightarrow> RingState" where
  "buildRings legit cycles smurfing shells =
     addShellRings legit shells
       (addSmurfRings legit smurfing (addCycleRings legit cycles initRingState))"

text \<open>
  The score is a sum of integers, so \<open>parseFloat(score.toFixed(1))\<close> is the score itself.
  \<open>patternScore\<close> is the score before the velocity test, \<open>highVelocity\<close> the test on the
  transfers \<open>txs\<close> that touch the account.
\<close>

definition patternScore :: "string list \<Rightarrow> string list \<Rightarrow> nat" where
  "patternScore patterns ringIds =
     (if list_ex (\<lambda>p. take 6 p = ''cycle_'') patterns then 35 else 0)
     + (if ''fan_in'' \<in> set patterns then 25 else 0)
     + (if ''fan_out'' \<in> set patterns then 25 else 0)
     + (if ''shell_network'' \<in> set patterns then 20 else 0)
     + (if 1 < length ringIds then 15 else 0)"

definition highVelocity :: "Transaction list \<Rightarrow> bool" where
  "highVelocity txs =
     (if 1 < length txs then
        (let sortedTs = sort (map timestamp txs);
             spanH = real_of_int (last sortedTs - hd sortedTs) / 3600000
         in spanH < 24 \<and> 5 < length txs)
      else False)"

definition touching :: "Transaction list \<Rightarrow> string \<Rightarrow> Transaction list" where
  "touching transactions i = filter (\<lambda>t. sender_id t = i \<or> receiver_id t = i) transactions"

definition scoreAccount :: "Transaction list \<Rightarrow> (string \<times> string list) list
    \<Rightarrow> string \<times> string list \<Rightarrow> SuspiciousAccount" where
  "scoreAccount transactions acctPats entry =
     (case entry of (i, ringIds) \<Rightarrow>
        (let patterns = getOr acctPats i;
             score = patternScore patterns ringIds;
             fast = highVelocity (touching transactions i)
         in \<lparr>account_id = i,
             suspicion_score = min 100 (if fast then score + 15 else score),
             detected_patterns = (if fast then setAdd ''high_velocity'' patterns else patterns),
             first_ring_id = (case ringIds of [] \<Rightarrow> None | r # _ \<Rightarrow> Some r)\<rparr>))"

definition scoreAccounts :: "Transaction list \<Rightarrow> string list \<Rightarrow> RingState
    \<Rightarrow> SuspiciousAccount list" where
  "scoreAccounts transactions legit st =
     sort_key (\<lambda>a. - int (suspicion_score a))
       (map (scoreAccount transactions (acctPatterns st))
          (filter (\<lambda>(i, ringIds). i \<notin> set legit) (acctRings st)))"

section \<open>Result assembly (analyzeTransactions, lines 115-144)\<close>

definition graphNode :: "string list \<Rightarrow> RingState \<Rightarrow> SuspiciousAccount list \<Rightarrow> string
    \<Rightarrow> NodeStats \<Rightarrow> GraphNode" where
  "graphNode legit st suspiciousAccounts i s =
     \<lparr>node_id = i,
      suspicious = (mapHas (acctRings st) i \<and> i \<notin> set legit),
      node_suspicion_score =
        (case find (\<lambda>a. account_id a = i) suspiciousAccounts of
           None \<Rightarrow> 0 | Some sa \<Rightarrow> suspicion_score sa),
      ring_ids = getOr (acctRings st) i,
      in_degree = inDegree s, out_degree = outDegree s,
      total_amount_in = totalAmountIn s, total_amount_out = totalAmountOut s\<rparr>"

text \<open>
  \<open>nodeStats.get(id)!\<close> is read without a check: a missing entry would throw on
  \<open>s.inDegree\<close>.
\<close>

fun graphNodes :: "string list \<Rightarrow> RingState \<Rightarrow> SuspiciousAccount list
    \<Rightarrow> (string \<times> NodeStats) list \<Rightarrow> string list \<Rightarrow> error + GraphNode list" where
  "graphNodes legit st suspiciousAccounts nodeStats [] = Inr []"
| "graphNodes legit st suspiciousAccounts nodeStats (i # rest) =
     (case map_of nodeStats i of
        None \<Rightarrow> Inl TypeError
      | Some s \<Rightarrow>
          (case graphNodes legit st suspiciousAccounts nodeStats rest of
             Inl e \<Rightarrow> Inl e
           | Inr ns \<Rightarrow> Inr (graphNode legit st suspiciousAccounts i s # ns)))"

definition graphEdge :: "Transaction \<Rightarrow> GraphEdge" where
  "graphEdge tx =
     \<lparr>edge_source = sender_id tx, edge_target = receiver_id tx, graph_edge_amount = amount tx,
      graph_edge_transaction_id = transaction_id tx, graph_edge_timestamp = timestamp tx\<rparr>"

definition legitOf :: "Graph \<Rightarrow> Transaction list \<Rightarrow> string list" where
  "legitOf g transactions =
     detectMerchants (computeStats g) transactions @ detectPayroll (computeStats g) transactions"

definition ringsOf :: "Graph \<Rightarrow> Transaction list \<Rightarrow> RingState" where
  "ringsOf g transactions =
     buildRings (legitOf g transactions)
       (findCycles (adjList g) (allNodes g) 3 5)
       (detectSmurfing transactions)
       (detectShellNetworks (adjList g) (computeStats g) (allNodes g))"

definition analyzeTransactions :: "Transaction list \<Rightarrow> error + AnalysisResult" where
  "analyzeTransactions transactions =
     (case buildGraph emptyGraph transactions of
        Inl e \<Rightarrow> Inl e
      | Inr g \<Rightarrow>
          (let legit = legitOf g transactions;
               st = ringsOf g transactions;
               suspiciousAccounts = scoreAccounts transactions legit st
           in case graphNodes legit st suspiciousAccounts (computeStats g) (allNodes g) of
                Inl e \<Rightarrow> Inl e
              | Inr graphNodeList \<Rightarrow>
                  Inr \<lparr>suspicious_accounts = suspiciousAccounts,
                       fraud_rings = fraudRings st,
                       summary =
                         \<lparr>total_accounts_analyzed = length (allNodes g),
                          suspicious_accounts_flagged = length suspiciousAccounts,
                          fraud_rings_detected = length (fraudRings st)\<rparr>,
                       graph = \<lparr>nodes = graphNodeList, edges = map graphEdge transactions\<rparr>\<rparr>))"

section \<open>Notions used to state the properties\<close>

text \<open>
  \<open>graphOf\<close> is the graph the construction loop builds when it does not throw.
  \<open>notLegit\<close> is the test \<open>!legit.has(id)\<close> of \<open>addRing\<close> for the batch.
  \<open>ringFrom legit members patternType baseScore r\<close> says that \<open>r\<close> is the ring a call
  \<open>addRing(members, patternType, baseScore, _)\<close> pushes.
\<close>

definition graphOf :: "Transaction list \<Rightarrow> Graph" where
  "graphOf transactions = fold addTx transactions emptyGraph"

definition statsOf :: "Transaction list \<Rightarrow> (string \<times> NodeStats) list" where
  "statsOf transactions = computeStats (graphOf transactions)"

definition notLegit :: "Transaction list \<Rightarrow> string \<Rightarrow> bool" where
  "notLegit transactions i \<longleftrightarrow> i \<notin> set (legitOf (graphOf transactions) transactions)"

definition ringFrom :: "string list \<Rightarrow> string list \<Rightarrow> string \<Rightarrow> nat \<Rightarrow> FraudRing \<Rightarrow> bool" where
  "ringFrom legit members patternType baseScore r \<longleftrightarrow>
     member_accounts r = filter (\<lambda>i. i \<notin> set legit) members \<and>
     2 \<le> length (member_accounts r) \<and>
     pattern_type r = patternType \<and>
     risk_score r = min 100 (baseScore + 2 * length (member_accounts r))"

text \<open>
  \<open>highActivity\<close> is the test on the origin of a chain (an entry with more than 3
  transactions), \<open>shellChain\<close> the shape of an emitted chain, and \<open>shellInv\<close> the
  invariant of the pair \<open>(seen, chains)\<close> of \<open>detectShellNetworks\<close>.
\<close>

definition highActivity :: "(string \<times> NodeStats) list \<Rightarrow> string \<Rightarrow> bool" where
  "highActivity nodeStats i \<longleftrightarrow> (\<exists>s. map_of nodeStats i = Some s \<and> 3 < totalTransactions s)"

definition shellChain :: "(string \<times> NodeStats) list \<Rightarrow> string list \<Rightarrow> bool" where
  "shellChain nodeStats c \<longleftrightarrow>
     4 \<le> length c \<and> length c \<le> 8 \<and> distinct c \<and> highActivity nodeStats (hd c) \<and>
     (\<forall>i. 0 < i \<and> i + 1 < length c \<longrightarrow> isShell nodeStats (c ! i))"

definition shellInv :: "(string \<times> NodeStats) list \<Rightarrow> string list \<times> string list list \<Rightarrow> bool" where
  "shellInv nodeStats st \<longleftrightarrow>
     fst st = map (join arrow) (snd st) \<and> distinct (fst st) \<and>
     (\<forall>c \<in> set (snd st). shellChain nodeStats c)"

text \<open>
  \<open>inWindow a t\<close>: the transfer \<open>t\<close> lies in the 72-hour window anchored at the transfer
  \<open>a\<close>, both ends included.
\<close>

definition inWindow :: "Transaction \<Rightarrow> Transaction \<Rightarrow> bool" where
  "inWindow a t \<longleftrightarrow> timestamp a \<le> timestamp t \<and> timestamp t \<le> timestamp a + 72 * 3600000"


text \<open>
  \<open>spanBelow ms txs\<close>: any two transfers of \<open>txs\<close> are less than \<open>ms\<close> milliseconds
  apart, that is, the latest is less than \<open>ms\<close> after the earliest.
  \<open>between lo hi txs\<close> are the transfers of \<open>txs\<close> with a timestamp from \<open>lo\<close> to \<open>hi\<close>.
\<close>

definition spanBelow :: "int \<Rightarrow> Transaction list \<Rightarrow> bool" where
  "spanBelow ms txs \<longleftrightarrow> (\<forall>t \<in> set txs. \<forall>t' \<in> set txs. timestamp t' - timestamp t < ms)"

definition between :: "int \<Rightarrow> int \<Rightarrow> Transaction list \<Rightarrow> Transaction list" where
  "between lo hi txs = filter (\<lambda>t. lo \<le> timestamp t \<and> timestamp t \<le> hi) txs"

text \<open>
  \<open>occurrenceIds rings i\<close> lists, ring by ring, the id of the ring once for every
  occurrence of the account \<open>i\<close> in its member list. \<open>ringsInv\<close> is the invariant that
  ties \<open>acctRings\<close> to \<open>fraudRings\<close>.
\<close>

definition occurrenceIds :: "FraudRing list \<Rightarrow> string \<Rightarrow> string list" where
  "occurrenceIds rings i =
     concat (map (\<lambda>r. replicate (count_list (member_accounts r) i) (ring_id r)) rings)"

definition ringsInv :: "RingState \<Rightarrow> bool" where
  "ringsInv st \<longleftrightarrow>
     (\<forall>j. getOr (acctRings st) j = occurrenceIds (fraudRings st) j) \<and>
     (\<forall>j. mapHas (acctRings st) j \<longleftrightarrow>
          (\<exists>r \<in> set (fraudRings st). j \<in> set (member_accounts r)))"

text \<open>
  \<open>ringName n\<close> is the id \<open>addRing\<close> gives to the \<open>n\<close>-th ring, \<open>decimalValue\<close> reads a
  decimal numeral back, and \<open>ringsNumbered\<close> is the invariant that the counter is the
  number of rings and that the rings carry the names 1, 2, ... in order.
\<close>

definition ringName :: "nat \<Rightarrow> string" where
  "ringName n = ''RING_'' @ padStart 3 (CHR ''0'') (digits n)"

definition decimalValue :: "string \<Rightarrow> nat" where
  "decimalValue s = foldl (\<lambda>n c. 10 * n + (of_char c - 48)) 0 s"

definition ringsNumbered :: "RingState \<Rightarrow> bool" where
  "ringsNumbered st \<longleftrightarrow>
     ringCounter st = length (fraudRings st) \<and>
     map ring_id (fraudRings st) = map ringName [1 ..< Suc (length (fraudRings st))]"

section \<open>Test batches\<close>

definition transfer :: "string \<Rightarrow> string \<Rightarrow> string \<Rightarrow> real \<Rightarrow> int \<Rightarrow> Transaction" where
  "transfer i s r a t =
     \<lparr>transaction_id = i, sender_id = s, receiver_id = r, amount = a, timestamp = t\<rparr>"

text \<open>The scenario of the specification: A, B and C in a circle, one hour apart.\<close>

definition exCycle :: "Transaction list" where
  "exCycle =
     [transfer ''t1'' ''A'' ''B'' 100 0,
      transfer ''t2'' ''B'' ''C'' 100 3600000,
      transfer ''t3'' ''C'' ''A'' 100 7200000]"

text \<open>A payer P that sends the same amount to ten accounts within ten hours.\<close>

definition exPayroll :: "Transaction list" where
  "exPayroll =
     map (\<lambda>k. transfer (''p'' @ digits k) ''P'' (''r'' @ digits k) 100 (int k * 3600000))
       [0 ..< 10]"

text \<open>
  The circle entered at B, with the first transfer repeated and a self-transfer of A.
\<close>

definition exCycleB :: "Transaction list" where
  "exCycleB =
     [transfer ''t1'' ''B'' ''C'' 100 0,
      transfer ''t2'' ''B'' ''C'' 50 1800000,
      transfer ''t3'' ''C'' ''A'' 100 3600000,
      transfer ''t4'' ''A'' ''B'' 100 7200000,
      transfer ''t5'' ''A'' ''A'' 10 7200000]"

text \<open>
  A busy origin H that reaches s3 through s1 and s2; the transfer from H to s1 occurs twice.
\<close>

definition exShell :: "Transaction list" where
  "exShell =
     [transfer ''t1'' ''H'' ''x1'' 10 0,
      transfer ''t2'' ''H'' ''x2'' 10 1000,
      transfer ''t3'' ''H'' ''x3'' 10 2000,
      transfer ''t4'' ''H'' ''s1'' 500 3000,
      transfer ''t5'' ''s1'' ''s2'' 500 4000,
      transfer ''t6'' ''s2'' ''s3'' 500 5000,
      transfer ''t7'' ''H'' ''s1'' 20 6000]"

text \<open>
  Ten senders to R, eight hours apart, so that the tenth transfer is exactly 72 hours after
  the first; and the same batch with the tenth transfer sent by the first sender again.
\<close>

definition exFan10 :: "Transaction list" where
  "exFan10 =
     map (\<lambda>k. transfer (''f'' @ digits k) (''a'' @ digits k) ''R'' 10 (int k * 28800000))
       [0 ..< 10]"

definition exFan9 :: "Transaction list" where
  "exFan9 = take 9 exFan10 @ [transfer ''f9'' ''a0'' ''R'' 10 (9 * 28800000)]"


text \<open>
  The circle A, B, C with four more transfers from A to B, all within six hours; and the
  same batch with one more transfer from A to B two days later.
\<close>

definition exFast :: "Transaction list" where
  "exFast =
     [transfer ''t1'' ''A'' ''B'' 100 0,
      transfer ''t2'' ''B'' ''C'' 100 3600000,
      transfer ''t3'' ''C'' ''A'' 100 7200000,
      transfer ''t4'' ''A'' ''B'' 100 10800000,
      transfer ''t5'' ''A'' ''B'' 100 14400000,
      transfer ''t6'' ''A'' ''B'' 100 18000000,
      transfer ''t7'' ''A'' ''B'' 100 21600000]"

definition exVelocity :: "Transaction list" where
  "exVelocity = exFast @ [transfer ''t8'' ''A'' ''B'' 100 172800000]"

text \<open>
  Nine senders to R, five hours apart, and a transfer from R to itself: R has ten distinct
  senders, one of them R.
\<close>

definition exSelfFan :: "Transaction list" where
  "exSelfFan =
     map (\<lambda>k. transfer (''f'' @ digits k) (''a'' @ digits k) ''R'' 10 (int k * 18000000))
       [1 ..< 10]
     @ [transfer ''f10'' ''R'' ''R'' 10 (10 * 18000000)]"

text \<open>
  The circle A, B, C in which A and B each send ten transfers of the same amount, so that
  both are classified as payroll accounts.
\<close>

definition exPayCycle :: "Transaction list" where
  "exPayCycle =
     map (\<lambda>k. transfer (''a'' @ digits k) ''A'' ''B'' 100 (int k * 3600000)) [0 ..< 10]
     @ map (\<lambda>k. transfer (''b'' @ digits k) ''B'' ''C'' 100 (int k * 3600000 + 1800000)) [0 ..< 10]
     @ [transfer ''c0'' ''C'' ''A'' 100 36000000]"

section \<open>Containers: basic facts\<close>

lemma setAdd_set: "set (setAdd x s) = insert x (set s)"
  by (auto simp: setAdd_def)


section \<open>An executable form of the payroll test\<close>

text \<open>
  The test \<open>Math.sqrt(variance) / mean < 0.15\<close> is decided without the square root:
  the variance is never negative, so for a positive mean the test compares squares, for a
  negative mean the quotient is at most zero, and for a zero mean it is \<open>NaN\<close> or
  \<open>Infinity\<close>.
\<close>

lemma fold_sq_nonneg: "0 \<le> s \<Longrightarrow> 0 \<le> fold (\<lambda>a s. s + (a - m) ^ 2) (xs::real list) s"
  by (induction xs arbitrary: s) auto

lemma varianceOf_nonneg: "0 \<le> varianceOf amounts"
  unfolding varianceOf_def by (intro divide_nonneg_nonneg fold_sq_nonneg) auto

lemma sqrt_less_sq: "0 \<le> v \<Longrightarrow> 0 < c \<Longrightarrow> sqrt v < c \<longleftrightarrow> v < c ^ 2"
  by (metis real_sqrt_less_iff real_sqrt_abs abs_of_pos)

lemma js_lt_NaN: "js_lt NaN b = False"
  by (simp add: js_lt_def)

lemma js_lt_ratio:
  fixes v m b :: real
  assumes "0 \<le> v" "0 < b"
  shows "js_lt (js_div (sqrt v) m) b =
           (if m = 0 then False else if m < 0 then True else v < (b * m) ^ 2)"
proof -
  have neg: "sqrt v / m < b" if "m < 0"
  proof -
    have "sqrt v / m \<le> 0" using that assms(1) by (simp add: divide_nonneg_neg)
    also note \<open>0 < b\<close>
    finally show ?thesis .
  qed
  show ?thesis
    using assms neg sqrt_less_sq[of v "b * m"]
    by (auto simp: js_lt_def js_div_def field_simps)
qed

lemma isPayroll_code [code]:
  "isPayroll transactions i stats =
     (if outDegree stats < 10 then False
      else
        (let amounts = map amount (filter (\<lambda>t. sender_id t = i) transactions) in
         case amounts of [] \<Rightarrow> False
         | _ # _ \<Rightarrow>
            (let m = meanOf amounts; v = varianceOf amounts in
             if m = 0 then False else if m < 0 then True else v < (0.15 * m) ^ 2)))"
  unfolding isPayroll_def payrollCheck_def cvRatio_def Let_def
  by (simp add: js_lt_ratio varianceOf_nonneg js_lt_NaN split: list.split)

section \<open>The result and the ring pass\<close>

lemma buildGraph_Inr: "buildGraph g0 txs = Inr g \<Longrightarrow> g = fold addTx txs g0"
  by (induction txs arbitrary: g0) (auto split: if_splits)

lemma analyze_Inr:
  assumes "analyzeTransactions txs = Inr res"
  shows "fraud_rings res = fraudRings (ringsOf (graphOf txs) txs)"
    and "suspicious_accounts res =
           scoreAccounts txs (legitOf (graphOf txs) txs) (ringsOf (graphOf txs) txs)"
    and "graphNodes (legitOf (graphOf txs) txs) (ringsOf (graphOf txs) txs) (suspicious_accounts res)
           (computeStats (graphOf txs)) (allNodes (graphOf txs)) = Inr (nodes (graph res))"
  using assms
  by (auto simp: analyzeTransactions_def graphOf_def Let_def split: sum.splits dest!: buildGraph_Inr)

text \<open>
  The analysis returns a result for every batch in which no account id names a property of
  \<open>Object.prototype\<close>, and throws in the construction loop otherwise.
\<close>

lemma buildGraph_ok:
  assumes "\<forall>tx \<in> set txs. sender_id tx \<notin> set protoKeys \<and> receiver_id tx \<notin> set protoKeys"
  shows "buildGraph g0 txs = Inr (fold addTx txs g0)"
  using assms by (induction txs arbitrary: g0) simp_all

lemma map_of_computeStats:
  "i \<in> set (allNodes g) \<Longrightarrow> map_of (computeStats g) i = Some (mkStats g i)"
  by (simp add: computeStats_def map_of_map_restrict)

lemma graphNodes_ok:
  assumes "set is \<subseteq> set (allNodes g)"
  shows "graphNodes legit st sus (computeStats g) is =
           Inr (map (\<lambda>i. graphNode legit st sus i (mkStats g i)) is)"
  using assms by (induction "is") (simp_all add: map_of_computeStats)

lemma analyzeTransactions_returns:
  assumes "\<forall>tx \<in> set txs. sender_id tx \<notin> set protoKeys \<and> receiver_id tx \<notin> set protoKeys"
  shows "\<exists>res. analyzeTransactions txs = Inr res"
  by (simp add: analyzeTransactions_def buildGraph_ok[OF assms] graphNodes_ok Let_def)

lemma analyzeTransactions_throws:
  assumes "tx \<in> set txs" "sender_id tx \<in> set protoKeys \<or> receiver_id tx \<in> set protoKeys"
  shows "analyzeTransactions txs = Inl TypeError"
proof -
  have "buildGraph g0 txs = Inl TypeError" for g0
    using assms by (induction txs arbitrary: g0) auto
  then show ?thesis by (simp add: analyzeTransactions_def)
qed

lemma addMember_fields [simp]:
  "fraudRings (addMember r t i st) = fraudRings st"
  "ringCounter (addMember r t i st) = ringCounter st"
  by (simp_all add: addMember_def)

lemma fold_addMember_fields [simp]:
  "fraudRings (fold (addMember r t) xs st) = fraudRings st"
  "ringCounter (fold (addMember r t) xs st) = ringCounter st"
  by (induction xs arbitrary: st) simp_all

lemma addRing_rings:
  "fraudRings (addRing legit ms pt b tag st) =
     (let filtered = filter (\<lambda>i. i \<notin> set legit) ms in
      if length filtered < 2 then fraudRings st
      else fraudRings st @
        [\<lparr>ring_id = ''RING_'' @ padStart 3 (CHR ''0'') (digits (ringCounter st + 1)),
          member_accounts = filtered, pattern_type = pt,
          risk_score = min 100 (b + length filtered * 2)\<rparr>])"
  by (simp add: addRing_def Let_def)

lemma addRing_new:
  assumes "r \<in> set (fraudRings (addRing legit ms pt b tag st))"
  shows "r \<in> set (fraudRings st) \<or> ringFrom legit ms pt b r"
  using assms by (auto simp: addRing_rings Let_def ringFrom_def mult.commute split: if_splits)

lemma fold_addRing_new:
  assumes "r \<in> set (fraudRings (fold (\<lambda>x. addRing legit (ms x) (pt x) (b x) (tag x)) xs st))"
  shows "r \<in> set (fraudRings st) \<or> (\<exists>x \<in> set xs. ringFrom legit (ms x) (pt x) (b x) r)"
  using assms
proof (induction xs arbitrary: st)
  case Nil
  then show ?case by simp
next
  case (Cons x xs)
  from Cons.IH[OF Cons.prems[simplified]] show ?case
    by (auto dest: addRing_new)
qed

lemma fanHits_ptype: "p \<in> set (fanHits tag key other txs) \<Longrightarrow> ptype p = tag"
  by (auto simp: fanHits_def Let_def split: option.splits)

lemma detectSmurfing_ptype:
  "p \<in> set (detectSmurfing txs) \<Longrightarrow> ptype p = ''fan_in'' \<or> ptype p = ''fan_out''"
  by (auto simp: detectSmurfing_def dest: fanHits_ptype)

lemma buildRings_new:
  assumes "r \<in> set (fraudRings (buildRings legit cycles smurfing shells))"
  shows "(\<exists>c \<in> set cycles. ringFrom legit c ''cycle'' (75 + length c * 3) r)
       \<or> (\<exists>p \<in> set smurfing. ringFrom legit (accounts p) (ptype p) 65 r)
       \<or> (\<exists>c \<in> set shells. ringFrom legit c ''shell_network'' 70 r)"
proof -
  from assms have "r \<in> set (fraudRings (addSmurfRings legit smurfing (addCycleRings legit cycles initRingState)))
     \<or> (\<exists>c \<in> set shells. ringFrom legit c ''shell_network'' 70 r)"
    unfolding buildRings_def addShellRings_def
    by (rule fold_addRing_new[where ms="\<lambda>c. c" and pt="\<lambda>c. ''shell_network''" and b="\<lambda>c. 70"])
  moreover have "(\<exists>c \<in> set cycles. ringFrom legit c ''cycle'' (75 + length c * 3) r)
       \<or> (\<exists>p \<in> set smurfing. ringFrom legit (accounts p) (ptype p) 65 r)"
    if "r \<in> set (fraudRings (addSmurfRings legit smurfing (addCycleRings legit cycles initRingState)))"
  proof -
    from that have "r \<in> set (fraudRings (addCycleRings legit cycles initRingState))
       \<or> (\<exists>p \<in> set smurfing. ringFrom legit (accounts p) (ptype p) 65 r)"
      unfolding addSmurfRings_def
      by (rule fold_addRing_new[where ms=accounts and pt=ptype and b="\<lambda>c. 65"])
    moreover have "\<exists>c \<in> set cycles. ringFrom legit c ''cycle'' (75 + length c * 3) r"
      if "r \<in> set (fraudRings (addCycleRings legit cycles initRingState))"
      using fold_addRing_new[where ms="\<lambda>c. c" and pt="\<lambda>c. ''cycle''" and b="\<lambda>c. 75 + length c * 3"
          and tag="\<lambda>c. ''cycle_length_'' @ digits (length c)" and st=initRingState and r=r and xs=cycles and legit=legit]
        that
      by (simp add: addCycleRings_def initRingState_def)
    ultimately show ?thesis by blast
  qed
  ultimately show ?thesis by blast
qed


section \<open>Ring membership and risk score\<close>

lemma rings_of_result:
  assumes "analyzeTransactions txs = Inr res" and "r \<in> set (fraud_rings res)"
  shows "(\<exists>c \<in> set (findCycles (adjList (graphOf txs)) (allNodes (graphOf txs)) 3 5).
            ringFrom (legitOf (graphOf txs) txs) c ''cycle'' (75 + length c * 3) r)
       \<or> (\<exists>p \<in> set (detectSmurfing txs).
            ringFrom (legitOf (graphOf txs) txs) (accounts p) (ptype p) 65 r)
       \<or> (\<exists>c \<in> set (detectShellNetworks (adjList (graphOf txs)) (statsOf txs) (allNodes (graphOf txs))).
            ringFrom (legitOf (graphOf txs) txs) c ''shell_network'' 70 r)"
  using assms buildRings_new[of r "legitOf (graphOf txs) txs"]
  by (simp add: analyze_Inr(1) ringsOf_def statsOf_def)

text \<open>
  C1. In the result of \<open>analyzeTransactions\<close>, every fraud ring has at least two member
  accounts, and none of its members is in the set \<open>detectMerchants\<close> returns or in the
  set \<open>detectPayroll\<close> returns for the batch.
\<close>

theorem ring_members_filtered:
  assumes "analyzeTransactions txs = Inr res" and "r \<in> set (fraud_rings res)"
  shows "2 \<le> length (member_accounts r) \<and>
         (\<forall>a \<in> set (member_accounts r).
            a \<notin> set (detectMerchants (statsOf txs) txs) \<and>
            a \<notin> set (detectPayroll (statsOf txs) txs))"
proof -
  from rings_of_result[OF assms] obtain ms pt b
    where "ringFrom (legitOf (graphOf txs) txs) ms pt b r" by blast
  then show ?thesis
    by (auto simp: ringFrom_def legitOf_def statsOf_def)
qed

theorem ring_members_filtered_witness:
  "\<lparr>ring_id = ''RING_001'',
     member_accounts = [''r0'', ''r1'', ''r2'', ''r3'', ''r4'', ''r5'', ''r6'', ''r7'', ''r8'', ''r9''],
     pattern_type = ''fan_out'', risk_score = 85\<rparr>
     \<in> set (fraud_rings (projr (analyzeTransactions exPayroll))) \<and>
   ''P'' \<in> set (detectPayroll (statsOf exPayroll) exPayroll) \<and>
   ''P'' \<notin> set [''r0'', ''r1'', ''r2'', ''r3'', ''r4'', ''r5'', ''r6'', ''r7'', ''r8'', ''r9''] \<and>
   ''r0'' \<notin> set (detectMerchants (statsOf exPayroll) exPayroll)"
proof -
  let ?r = "\<lparr>ring_id = ''RING_001'',
     member_accounts = [''r0'', ''r1'', ''r2'', ''r3'', ''r4'', ''r5'', ''r6'', ''r7'', ''r8'', ''r9''],
     pattern_type = ''fan_out'', risk_score = 85\<rparr>"
  have "\<not> isl (analyzeTransactions exPayroll)" by code_simp
  then have h1: "analyzeTransactions exPayroll = Inr (projr (analyzeTransactions exPayroll))"
    by simp
  have h2: "?r \<in> set (fraud_rings (projr (analyzeTransactions exPayroll)))" by code_simp
  have h3: "''P'' \<in> set (detectPayroll (statsOf exPayroll) exPayroll)" by code_simp
  from ring_members_filtered[OF h1 h2] h2 h3 show ?thesis by simp
qed

text \<open>
  C4. Every fraud ring of the result comes from a pattern hit \<open>members\<close>: its member
  accounts are the hit's accounts that are not excluded, and its risk score is
  \<open>min 100 (baseScore + 2 * number of member accounts)\<close>, where \<open>baseScore\<close> is
  \<open>75 + 3 * length of the cycle\<close> for a ring of type \<open>cycle\<close>, 65 for \<open>fan_in\<close> and
  \<open>fan_out\<close>, and 70 for \<open>shell_network\<close>. A cycle of length 3 that keeps its 3 members
  has risk score 90.
\<close>

theorem ring_risk_score:
  assumes "analyzeTransactions txs = Inr res" and "r \<in> set (fraud_rings res)"
  shows "\<exists>members baseScore.
           member_accounts r = filter (notLegit txs) members \<and>
           risk_score r = min 100 (baseScore + 2 * length (member_accounts r)) \<and>
           (pattern_type r = ''cycle'' \<and> baseScore = 75 + 3 * length members \<and>
              members \<in> set (findCycles (adjList (graphOf txs)) (allNodes (graphOf txs)) 3 5)
            \<or> (pattern_type r = ''fan_in'' \<or> pattern_type r = ''fan_out'') \<and> baseScore = 65 \<and>
              (\<exists>p \<in> set (detectSmurfing txs). ptype p = pattern_type r \<and> accounts p = members)
            \<or> pattern_type r = ''shell_network'' \<and> baseScore = 70 \<and>
              members \<in> set (detectShellNetworks (adjList (graphOf txs)) (statsOf txs)
                               (allNodes (graphOf txs)))) \<and>
           (pattern_type r = ''cycle'' \<and> length members = 3 \<and> length (member_accounts r) = 3
              \<longrightarrow> risk_score r = 90)"
proof -
  have nl: "(\<lambda>i. i \<notin> set (legitOf (graphOf txs) txs)) = notLegit txs"
    by (simp add: notLegit_def fun_eq_iff)
  consider
    (cyc) c where "c \<in> set (findCycles (adjList (graphOf txs)) (allNodes (graphOf txs)) 3 5)"
      "ringFrom (legitOf (graphOf txs) txs) c ''cycle'' (75 + length c * 3) r"
  | (smurf) p where "p \<in> set (detectSmurfing txs)"
      "ringFrom (legitOf (graphOf txs) txs) (accounts p) (ptype p) 65 r"
  | (shell) c where "c \<in> set (detectShellNetworks (adjList (graphOf txs)) (statsOf txs) (allNodes (graphOf txs)))"
      "ringFrom (legitOf (graphOf txs) txs) c ''shell_network'' 70 r"
    using rings_of_result[OF assms] by blast
  then show ?thesis
  proof cases
    case cyc
    then show ?thesis
      by (intro exI[of _ c] exI[of _ "75 + 3 * length c"]) (simp add: ringFrom_def nl mult.commute)
  next
    case smurf
    from detectSmurfing_ptype[OF smurf(1)] smurf show ?thesis
      by (intro exI[of _ "accounts p"] exI[of _ 65]) (auto simp add: ringFrom_def nl)
  next
    case shell
    then show ?thesis
      by (intro exI[of _ c] exI[of _ 70]) (simp add: ringFrom_def nl)
  qed
qed

theorem ring_risk_score_witness:
  "\<lparr>ring_id = ''RING_001'', member_accounts = [''A'', ''B'', ''C''], pattern_type = ''cycle'',
     risk_score = 90\<rparr> \<in> set (fraud_rings (projr (analyzeTransactions exCycle))) \<and>
   (\<exists>members. [''A'', ''B'', ''C''] = filter (notLegit exCycle) members \<and> length members = 3 \<and>
      members \<in> set (findCycles (adjList (graphOf exCycle)) (allNodes (graphOf exCycle)) 3 5) \<and>
      (90::nat) = min 100 (75 + 3 * length members + 2 * length [''A'', ''B'', ''C'']))"
proof -
  let ?r = "\<lparr>ring_id = ''RING_001'', member_accounts = [''A'', ''B'', ''C''],
     pattern_type = ''cycle'', risk_score = 90\<rparr>"
  have "\<not> isl (analyzeTransactions exCycle)" by code_simp
  then have h1: "analyzeTransactions exCycle = Inr (projr (analyzeTransactions exCycle))"
    by simp
  have h2: "?r \<in> set (fraud_rings (projr (analyzeTransactions exCycle)))" by code_simp
  have cs: "findCycles (adjList (graphOf exCycle)) (allNodes (graphOf exCycle)) 3 5 = [[''A'', ''B'', ''C'']]"
    by code_simp
  from ring_risk_score[OF h1 h2] obtain members baseScore where
    m: "member_accounts ?r = filter (notLegit exCycle) members" and
    s: "risk_score ?r = min 100 (baseScore + 2 * length (member_accounts ?r))" and
    d: "pattern_type ?r = ''cycle'' \<and> baseScore = 75 + 3 * length members \<and>
              members \<in> set (findCycles (adjList (graphOf exCycle)) (allNodes (graphOf exCycle)) 3 5)
            \<or> (pattern_type ?r = ''fan_in'' \<or> pattern_type ?r = ''fan_out'') \<and> baseScore = 65 \<and>
              (\<exists>p \<in> set (detectSmurfing exCycle). ptype p = pattern_type ?r \<and> accounts p = members)
            \<or> pattern_type ?r = ''shell_network'' \<and> baseScore = 70 \<and>
              members \<in> set (detectShellNetworks (adjList (graphOf exCycle)) (statsOf exCycle)
                               (allNodes (graphOf exCycle)))"
    by blast
  from d have b: "baseScore = 75 + 3 * length members"
    and c: "members \<in> set (findCycles (adjList (graphOf exCycle)) (allNodes (graphOf exCycle)) 3 5)"
    by simp_all
  from c cs have l: "length members = 3" by simp
  from m s b c l h2 show ?thesis
    by (intro conjI exI[of _ members]) simp_all
qed

section \<open>Cycle detection: length bounds and canonical form\<close>

lemma dfs_cycles:
  assumes "c \<in> set (dfs adj start processed minLen maxLen path current depth)"
    and "length path = depth + 1" and "distinct path"
  shows "minLen \<le> length c \<and> length c \<le> maxLen \<and> distinct c"
  using assms
proof (induction adj start processed minLen maxLen path current depth rule: dfs.induct)
  case (1 adj start processed minLen maxLen path current depth)
  let ?step = "\<lambda>edge.
        if target edge = start \<and> minLen \<le> depth + 1 \<and> depth + 1 \<le> maxLen then [path]
        else if target edge \<notin> set path \<and> target edge \<notin> set processed \<and> depth + 1 < maxLen
        then dfs adj start processed minLen maxLen (path @ [target edge]) (target edge) (depth + 1)
        else []"
  have "c \<in> set (concat (map ?step (edgesOf adj current)))"
    using "1.prems"(1)
    unfolding dfs.simps[of adj start processed minLen maxLen path current depth] .
  then have "\<exists>edge \<in> set (edgesOf adj current). c \<in> set (?step edge)"
    unfolding set_concat set_map by blast
  then obtain edge where e: "edge \<in> set (edgesOf adj current)" and c: "c \<in> set (?step edge)"
    by blast
  show ?case
  proof (cases "target edge = start \<and> minLen \<le> depth + 1 \<and> depth + 1 \<le> maxLen")
    case True
    with c "1.prems" show ?thesis by simp
  next
    case False
    with c have ok: "target edge \<notin> set path \<and> target edge \<notin> set processed \<and> depth + 1 < maxLen"
      and rec: "c \<in> set (dfs adj start processed minLen maxLen (path @ [target edge]) (target edge) (depth + 1))"
      by (auto split: if_splits)
    from "1.IH"[OF e False ok rec] "1.prems" ok show ?thesis by simp
  qed
qed

lemma searchFrom_cycles:
  assumes "c \<in> set (searchFrom adj minLen maxLen processed nodeSet)"
  shows "minLen \<le> length c \<and> length c \<le> maxLen \<and> distinct c"
  using assms
proof (induction nodeSet arbitrary: processed)
  case Nil
  then show ?case by simp
next
  case (Cons start rest)
  then show ?case
    by (auto dest: dfs_cycles)
qed

lemma fold_min_Min:
  "fold (\<lambda>i m. if i < m then i else m) xs (a::'a::linorder) = Min (set (a # xs))"
proof -
  have "(\<lambda>i m. if i < m then i else m) = (min :: 'a \<Rightarrow> 'a \<Rightarrow> 'a)"
    by (auto simp: fun_eq_iff min_def)
  then show ?thesis by (simp only: Min.set_eq_fold)
qed

lemma minId_eq: "c \<noteq> [] \<Longrightarrow> fold (\<lambda>i m. if i < m then i else m) c (hd c) = Min (set c)"
  by (cases c) (simp_all add: fold_min_Min del: fold_simps)

lemma indexOf_nth: "x \<in> set xs \<Longrightarrow> indexOf xs x < length xs \<and> xs ! indexOf xs x = x"
  unfolding indexOf_def by (induction xs) auto

lemma normalizeCycle_rotate:
  "normalizeCycle c = rotate (indexOf c (Min (set c))) c"
proof (cases c)
  case Nil
  then show ?thesis by (simp add: normalizeCycle_def)
next
  case (Cons a as)
  then have ne: "c \<noteq> []" by simp
  then have "Min (set c) \<in> set c" by simp
  from indexOf_nth[OF this] have lt: "indexOf c (Min (set c)) < length c" by simp
  have "normalizeCycle c = (let idx = indexOf c (Min (set c)) in drop idx c @ take idx c)"
    using minId_eq[OF ne] Cons by (simp add: normalizeCycle_def Let_def)
  with lt show ?thesis by (simp add: rotate_drop_take Let_def)
qed

lemma hd_normalizeCycle: "c \<noteq> [] \<Longrightarrow> hd (normalizeCycle c) = Min (set c)"
proof -
  assume ne: "c \<noteq> []"
  then have "Min (set c) \<in> set c" by simp
  from indexOf_nth[OF this] ne show ?thesis
    by (simp add: normalizeCycle_rotate hd_rotate_conv_nth)
qed

lemma rotate_same_hd:
  assumes "distinct c" "c \<noteq> []" "hd (rotate a c) = hd (rotate b c)"
  shows "rotate a c = rotate b c"
proof -
  from assms have "c ! (a mod length c) = c ! (b mod length c)"
    by (simp add: hd_rotate_conv_nth)
  with assms have "a mod length c = b mod length c"
    by (simp add: nth_eq_iff_index_eq)
  then show ?thesis by (metis rotate_conv_mod)
qed

lemma normalizeCycle_rotation:
  assumes "distinct c"
  shows "normalizeCycle (rotate n c) = normalizeCycle c"
proof (cases "c = []")
  case True
  then show ?thesis by simp
next
  case False
  have "normalizeCycle (rotate n c) = rotate (indexOf (rotate n c) (Min (set c)) + n) c"
    by (simp add: normalizeCycle_rotate rotate_rotate)
  moreover have "normalizeCycle c = rotate (indexOf c (Min (set c))) c"
    by (rule normalizeCycle_rotate)
  moreover have "hd (normalizeCycle (rotate n c)) = hd (normalizeCycle c)"
    using False by (simp add: hd_normalizeCycle)
  ultimately show ?thesis
    using rotate_same_hd[OF assms False] by metis
qed

lemma normalizeCycle_props [simp]:
  "length (normalizeCycle c) = length c"
  "set (normalizeCycle c) = set c"
  "distinct (normalizeCycle c) = distinct c"
  by (simp_all add: normalizeCycle_rotate)

lemma normalizeCycle_Nil_iff [simp]: "normalizeCycle c = [] \<longleftrightarrow> c = []"
  by (metis normalizeCycle_props(1) length_0_conv)

text \<open>The dedupe loop keeps \<open>seen\<close> equal to the keys of \<open>unique\<close>.\<close>

lemma dedupe_fold_inv:
  assumes "fst st = map cycleKey (snd st)" "distinct (fst st)"
  shows "fst (fold dedupeStep cs st) = map cycleKey (snd (fold dedupeStep cs st))
       \<and> distinct (fst (fold dedupeStep cs st))
       \<and> set (fst (fold dedupeStep cs st)) = set (fst st) \<union> cycleKey ` normalizeCycle ` set cs
       \<and> set (snd (fold dedupeStep cs st)) \<subseteq> set (snd st) \<union> normalizeCycle ` set cs"
  using assms
proof (induction cs arbitrary: st)
  case Nil
  then show ?case by simp
next
  case (Cons c cs)
  have 1: "fst (dedupeStep c st) = map cycleKey (snd (dedupeStep c st))"
    and 2: "distinct (fst (dedupeStep c st))"
    and 3: "set (fst (dedupeStep c st)) = insert (cycleKey (normalizeCycle c)) (set (fst st))"
    and 4: "set (snd (dedupeStep c st)) \<subseteq> insert (normalizeCycle c) (set (snd st))"
    using Cons.prems by (auto simp: dedupeStep_def Let_def)
  from Cons.IH[OF 1 2] 3 4 show ?case by auto
qed

lemma dedupe_keys:
  "distinct (map cycleKey (dedupe cs))"
  "set (map cycleKey (dedupe cs)) = cycleKey ` normalizeCycle ` set cs"
  "set (dedupe cs) \<subseteq> normalizeCycle ` set cs"
  using dedupe_fold_inv[of "([], [])" cs] by (auto simp: dedupe_def)

lemma one_with_key:
  assumes "distinct (map f xs)" "k \<in> f ` set xs"
  shows "length (filter (\<lambda>u. f u = k) xs) = 1"
  using assms
proof (induction xs)
  case Nil
  then show ?case by simp
next
  case (Cons x xs)
  show ?case
  proof (cases "f x = k")
    case True
    from Cons.prems(1) have "f x \<notin> f ` set xs" by simp
    with True have "\<forall>u \<in> set xs. f u \<noteq> k" by blast
    then have "filter (\<lambda>u. f u = k) xs = []"
      by (simp add: filter_empty_conv)
    with True show ?thesis by simp
  next
    case False
    with Cons show ?thesis by auto
  qed
qed

lemma findCycles_subset:
  "c \<in> set (findCycles adj nodeSet minLen maxLen)
   \<Longrightarrow> \<exists>d \<in> set (searchFrom adj minLen maxLen [] nodeSet). c = normalizeCycle d"
  using dedupe_keys(3)[of "searchFrom adj minLen maxLen [] nodeSet"]
  by (auto simp: findCycles_def)

lemma findCycles_bounds:
  assumes "c \<in> set (findCycles adj nodeSet minLen maxLen)"
  shows "minLen \<le> length c \<and> length c \<le> maxLen \<and> distinct c"
proof -
  from findCycles_subset[OF assms] obtain d
    where "d \<in> set (searchFrom adj minLen maxLen [] nodeSet)" "c = normalizeCycle d" by blast
  with searchFrom_cycles[of d adj minLen maxLen "[]" nodeSet] show ?thesis
    by simp
qed

text \<open>
  C6. Every cycle \<open>findCycles\<close> returns for the bounds 3 and 5 has at least 3 and at most
  5 accounts, all different; in particular the one-account cycle \<open>[x]\<close> of a self-transfer
  is never returned.
\<close>

theorem findCycles_length:
  "(c \<in> set (findCycles adj nodeSet 3 5) \<longrightarrow> 3 \<le> length c \<and> length c \<le> 5 \<and> distinct c)
   \<and> [x] \<notin> set (findCycles adj nodeSet 3 5)"
  using findCycles_bounds[of c adj nodeSet 3 5] findCycles_bounds[of "[x]" adj nodeSet 3 5]
  by auto

theorem findCycles_length_witness:
  "[''A'', ''B'', ''C''] \<in> set (findCycles (adjList (graphOf exCycleB)) (allNodes (graphOf exCycleB)) 3 5) \<and>
   3 \<le> length [''A'', ''B'', ''C''] \<and> length [''A'', ''B'', ''C''] \<le> (5::nat) \<and>
   [''A''] \<notin> set (findCycles (adjList (graphOf exCycleB)) (allNodes (graphOf exCycleB)) 3 5)"
proof -
  have f: "[''A'', ''B'', ''C''] \<in> set (findCycles (adjList (graphOf exCycleB)) (allNodes (graphOf exCycleB)) 3 5)"
    by code_simp
  from findCycles_length[of "[''A'', ''B'', ''C'']" "adjList (graphOf exCycleB)" "allNodes (graphOf exCycleB)" "''A''"] f
  show ?thesis by simp
qed

lemma join_Cons: "join sep (x # xs) = (if xs = [] then x else x @ sep @ join sep xs)"
  by (cases xs) simp_all

lemma takeWhile_no_sep:
  assumes "c \<notin> set x"
  shows "takeWhile (\<lambda>a. a \<noteq> c) (x @ (if r = [] then [] else c # join [c] r)) = x"
  using assms by (induction x) auto

lemma dropWhile_no_sep:
  assumes "c \<notin> set x"
  shows "dropWhile (\<lambda>a. a \<noteq> c) (x @ (if r = [] then [] else c # join [c] r))
           = (if r = [] then [] else c # join [c] r)"
  using assms by (induction x) auto

lemma join_inj:
  assumes "\<forall>x \<in> set xs. c \<notin> set x" "\<forall>y \<in> set ys. c \<notin> set y"
    and "xs \<noteq> []" "ys \<noteq> []" "join [c] xs = join [c] ys"
  shows "xs = ys"
  using assms
proof (induction xs arbitrary: ys)
  case Nil
  then show ?case by simp
next
  case (Cons x xs)
  from Cons.prems(4) obtain y ys' where ys: "ys = y # ys'" by (cases ys) auto
  have jx: "join [c] (x # xs) = x @ (if xs = [] then [] else c # join [c] xs)"
    by (simp add: join_Cons)
  have jy: "join [c] (y # ys') = y @ (if ys' = [] then [] else c # join [c] ys')"
    by (simp add: join_Cons)
  from Cons.prems ys have cx: "c \<notin> set x" and cy: "c \<notin> set y" by auto
  from Cons.prems(5) ys jx jy
  have eq: "x @ (if xs = [] then [] else c # join [c] xs) = y @ (if ys' = [] then [] else c # join [c] ys')"
    by simp
  from arg_cong[OF eq, of "takeWhile (\<lambda>a. a \<noteq> c)"] have xy: "x = y"
    by (simp only: takeWhile_no_sep[OF cx] takeWhile_no_sep[OF cy])
  from arg_cong[OF eq, of "dropWhile (\<lambda>a. a \<noteq> c)"]
  have rest: "(if xs = [] then [] else c # join [c] xs) = (if ys' = [] then [] else c # join [c] ys')"
    by (simp only: dropWhile_no_sep[OF cx] dropWhile_no_sep[OF cy])
  show ?case
  proof (cases "xs = []")
    case True
    with rest have "ys' = []" by (auto split: if_splits)
    with True xy ys show ?thesis by simp
  next
    case False
    with rest have ne: "ys' \<noteq> []" and j: "join [c] xs = join [c] ys'" by (auto split: if_splits)
    from Cons.IH[OF _ _ False ne j] Cons.prems(1,2) ys have "xs = ys'" by simp
    with xy ys show ?thesis by simp
  qed
qed

lemma canonical_cycle_unique:
  assumes "c \<in> set (searchFrom adj 3 5 [] nodeSet)"
  shows "normalizeCycle (rotate n c) = normalizeCycle c \<and>
         length (filter (\<lambda>u. cycleKey u = cycleKey (normalizeCycle (rotate n c)))
                   (findCycles adj nodeSet 3 5)) = 1 \<and>
         distinct (findCycles adj nodeSet 3 5) \<and>
         ((\<forall>d \<in> set (searchFrom adj 3 5 [] nodeSet). \<forall>i \<in> set d. CHR ''|'' \<notin> set i)
            \<longrightarrow> normalizeCycle (rotate n c) \<in> set (findCycles adj nodeSet 3 5))"
proof -
  let ?cs = "searchFrom adj 3 5 [] nodeSet"
  from searchFrom_cycles[OF assms] have d: "distinct c" and len: "3 \<le> length c" by simp_all
  from d have eq: "normalizeCycle (rotate n c) = normalizeCycle c"
    by (simp add: normalizeCycle_rotation)
  have "cycleKey (normalizeCycle c) \<in> set (map cycleKey (dedupe ?cs))"
    unfolding dedupe_keys(2) using assms by blast
  then have mem: "cycleKey (normalizeCycle c) \<in> cycleKey ` set (dedupe ?cs)" by simp
  from one_with_key[OF dedupe_keys(1) mem]
  have one: "length (filter (\<lambda>u. cycleKey u = cycleKey (normalizeCycle c)) (findCycles adj nodeSet 3 5)) = 1"
    by (simp add: findCycles_def)
  have dist: "distinct (findCycles adj nodeSet 3 5)"
    using dedupe_keys(1)[of ?cs] by (simp add: findCycles_def distinct_map)
  have "normalizeCycle c \<in> set (findCycles adj nodeSet 3 5)"
    if nosep: "\<forall>d \<in> set ?cs. \<forall>i \<in> set d. CHR ''|'' \<notin> set i"
  proof -
    from mem obtain u where u: "u \<in> set (dedupe ?cs)" and k: "cycleKey u = cycleKey (normalizeCycle c)"
      by auto
    from u dedupe_keys(3)[of ?cs] obtain e where e: "e \<in> set ?cs" and ue: "u = normalizeCycle e"
      by blast
    from searchFrom_cycles[OF e] ue have une: "u \<noteq> []" by auto
    from len have cne: "normalizeCycle c \<noteq> []" by auto
    from nosep e ue have su: "\<forall>x \<in> set u. CHR ''|'' \<notin> set x" by simp
    from nosep assms have sc: "\<forall>x \<in> set (normalizeCycle c). CHR ''|'' \<notin> set x" by simp
    from k have "join [CHR ''|''] u = join [CHR ''|''] (normalizeCycle c)"
      by (simp add: cycleKey_def)
    from join_inj[OF su sc une cne this] u show ?thesis by (simp add: findCycles_def)
  qed
  with eq one dist show ?thesis by simp
qed

section \<open>Shell chains\<close>

lemma extendChain_props:
  assumes "length chain \<le> 8"
  shows "length (extendChain adj nodeStats chain current) \<le> 8 \<and>
         take (length chain) (extendChain adj nodeStats chain current) = chain \<and>
         (\<forall>i. length chain \<le> i \<and> i + 1 < length (extendChain adj nodeStats chain current)
              \<longrightarrow> isShell nodeStats (extendChain adj nodeStats chain current ! i))"
  using assms
proof (induction adj nodeStats chain current rule: extendChain.induct)
  case (1 adj nodeStats chain current)
  let ?next = "filter (\<lambda>e. target e \<notin> set chain) (edgesOf adj current)"
  show ?case
  proof (cases "length chain < 8")
    case False
    with "1.prems" show ?thesis by (auto simp add: extendChain.simps[of adj nodeStats chain current])
  next
    case lt: True
    show ?thesis
    proof (cases "find (\<lambda>e. isShell nodeStats (target e)) ?next")
      case None
      with lt "1.prems" show ?thesis
        by (cases ?next) (auto simp add: extendChain.simps[of adj nodeStats chain current] Let_def)
    next
      case (Some nextShell)
      let ?res = "extendChain adj nodeStats (chain @ [target nextShell]) (target nextShell)"
      from Some have sh: "isShell nodeStats (target nextShell)"
        by (auto simp: find_Some_iff)
      from lt Some have eq: "extendChain adj nodeStats chain current = ?res"
        by (simp add: extendChain.simps[of adj nodeStats chain current] Let_def)
      from lt have "length (chain @ [target nextShell]) \<le> 8" by simp
      from "1.IH"[OF lt refl Some this]
      have l: "length ?res \<le> 8"
        and t: "take (Suc (length chain)) ?res = chain @ [target nextShell]"
        and s: "\<forall>i. Suc (length chain) \<le> i \<and> i + 1 < length ?res \<longrightarrow> isShell nodeStats (?res ! i)"
        by simp_all
      from t have t1: "take (length chain) ?res = chain"
        by (metis append_eq_conv_conj butlast_snoc butlast_take diff_Suc_1 length_append_singleton length_take min.absorb2 nat_le_linear take_all)
      from t have n: "?res ! length chain = target nextShell"
        by (metis lessI nth_append_length nth_take)
      have "isShell nodeStats (?res ! i)" if "length chain \<le> i" "i + 1 < length ?res" for i
      proof (cases "i = length chain")
        case True
        with n sh show ?thesis by simp
      next
        case False
        with that s show ?thesis by simp
      qed
      with l t1 eq show ?thesis by simp
    qed
  qed
qed


lemma extendChain_distinct:
  "distinct chain \<Longrightarrow> distinct (extendChain adj nodeStats chain current)"
proof (induction adj nodeStats chain current rule: extendChain.induct)
  case (1 adj nodeStats chain current)
  let ?next = "filter (\<lambda>e. target e \<notin> set chain) (edgesOf adj current)"
  show ?case
  proof (cases "length chain < 8")
    case False
    with "1.prems" show ?thesis by (simp add: extendChain.simps[of adj nodeStats chain current])
  next
    case lt: True
    show ?thesis
    proof (cases "find (\<lambda>e. isShell nodeStats (target e)) ?next")
      case None
      show ?thesis
      proof (cases ?next)
        case Nil
        with lt None "1.prems" show ?thesis
          by (simp add: extendChain.simps[of adj nodeStats chain current] Let_def)
      next
        case (Cons e es)
        then have "e \<in> set ?next" by simp
        then have "target e \<notin> set chain" by simp
        with lt None Cons "1.prems" show ?thesis
          by (simp add: extendChain.simps[of adj nodeStats chain current] Let_def)
      qed
    next
      case (Some nextShell)
      then have "nextShell \<in> set ?next" by (metis find_Some_iff nth_mem)
      then have "target nextShell \<notin> set chain" by simp
      with "1.prems" have "distinct (chain @ [target nextShell])" by simp
      from "1.IH"[OF lt refl Some this] lt Some show ?thesis
        by (simp add: extendChain.simps[of adj nodeStats chain current] Let_def)
    qed
  qed
qed

lemma isShell_iff: "isShell nodeStats i \<longleftrightarrow> (\<exists>s. map_of nodeStats i = Some s \<and> totalTransactions s \<le> 3)"
  by (auto simp: isShell_def split: option.splits)

lemma first_chain:
  assumes "highActivity nodeStats start" "isShell nodeStats t"
    and "4 \<le> length (extendChain adj nodeStats [start, t] t)"
  shows "shellChain nodeStats (extendChain adj nodeStats [start, t] t)"
proof -
  let ?res = "extendChain adj nodeStats [start, t] t"
  have "length [start, t] \<le> 8" by simp
  from extendChain_props[OF this, of adj nodeStats t]
  have l: "length ?res \<le> 8" and tk: "take 2 ?res = [start, t]"
    and s: "\<forall>i. 2 \<le> i \<and> i + 1 < length ?res \<longrightarrow> isShell nodeStats (?res ! i)"
    by (simp_all add: numeral_2_eq_2)
  from tk assms(3) have h: "hd ?res = start"
    by (metis hd_take list.sel(1) zero_less_numeral)
  from tk have "take 2 ?res ! 1 = t" by simp
  then have n1: "?res ! 1 = t" by simp
  have "isShell nodeStats (?res ! i)" if "0 < i" "i + 1 < length ?res" for i
  proof (cases "i = 1")
    case True
    with n1 assms(2) show ?thesis by simp
  next
    case False
    with that have "2 \<le> i" by simp
    with s that show ?thesis by simp
  qed
  moreover from assms(1,2) have "start \<noteq> t"
    by (auto simp: highActivity_def isShell_def)
  then have "distinct ?res" by (intro extendChain_distinct) simp
  ultimately show ?thesis using l h assms(1,3) by (simp add: shellChain_def)
qed

lemma shellFromEdge_inv:
  assumes "shellInv nodeStats st" "highActivity nodeStats start"
  shows "shellInv nodeStats (shellFromEdge adj nodeStats start edge st)"
proof (cases "isShell nodeStats (target edge) \<and>
              4 \<le> length (extendChain adj nodeStats [start, target edge] (target edge)) \<and>
              join arrow (extendChain adj nodeStats [start, target edge] (target edge)) \<notin> set (fst st)")
  case True
  then have "shellFromEdge adj nodeStats start edge st =
      (fst st @ [join arrow (extendChain adj nodeStats [start, target edge] (target edge))],
       snd st @ [extendChain adj nodeStats [start, target edge] (target edge)])"
    by (auto simp: shellFromEdge_def isShell_def Let_def split: option.splits)
  with assms True first_chain[OF assms(2), of "target edge" adj] show ?thesis
    by (auto simp: shellInv_def)
next
  case False
  then have "shellFromEdge adj nodeStats start edge st = st"
    by (auto simp: shellFromEdge_def isShell_def Let_def split: option.splits)
  with assms show ?thesis by simp
qed

lemma fold_shellFromEdge_inv:
  assumes "shellInv nodeStats st" "highActivity nodeStats start"
  shows "shellInv nodeStats (fold (shellFromEdge adj nodeStats start) es st)"
  using assms by (induction es arbitrary: st) (simp_all add: shellFromEdge_inv)

lemma shellFromStart_inv:
  assumes "shellInv nodeStats st"
  shows "shellInv nodeStats (shellFromStart adj nodeStats start st)"
proof (cases "highActivity nodeStats start")
  case True
  with assms show ?thesis
    by (auto simp: shellFromStart_def highActivity_def intro!: fold_shellFromEdge_inv split: option.splits)
next
  case False
  then have "shellFromStart adj nodeStats start st = st"
    by (auto simp: shellFromStart_def highActivity_def split: option.splits)
  with assms show ?thesis by simp
qed

lemma detectShellNetworks_inv:
  "shellInv nodeStats (fold (shellFromStart adj nodeStats) nodeSet ([], []))"
proof -
  have step: "shellInv nodeStats st \<Longrightarrow> shellInv nodeStats (fold (shellFromStart adj nodeStats) nodeSet st)" for st
    by (induction nodeSet arbitrary: st) (simp_all add: shellFromStart_inv)
  have base: "shellInv nodeStats ([], [])" by (simp add: shellInv_def)
  show ?thesis by (rule step[OF base])
qed

lemma shell_chain_accounts_distinct:
  "c \<in> set (detectShellNetworks adj nodeStats nodeSet) \<Longrightarrow> distinct c"
  using detectShellNetworks_inv[of nodeStats adj nodeSet]
  by (simp add: detectShellNetworks_def shellInv_def shellChain_def)

text \<open>
  C8. Every chain \<open>detectShellNetworks\<close> returns has between 4 and 8 accounts, its first
  account has more than 3 transactions in \<open>nodeStats\<close>, every account strictly between the
  first and the last has at most 3, and no chain is returned twice.
\<close>

theorem shell_chains:
  "(c \<in> set (detectShellNetworks adj nodeStats nodeSet) \<longrightarrow>
      4 \<le> length c \<and> length c \<le> 8 \<and>
      (\<exists>s. map_of nodeStats (hd c) = Some s \<and> 3 < totalTransactions s) \<and>
      (\<forall>i. 0 < i \<and> i + 1 < length c \<longrightarrow>
           (\<exists>s. map_of nodeStats (c ! i) = Some s \<and> totalTransactions s \<le> 3)))
   \<and> distinct (detectShellNetworks adj nodeStats nodeSet)"
proof -
  let ?st = "fold (shellFromStart adj nodeStats) nodeSet ([], [])"
  from detectShellNetworks_inv[of nodeStats adj nodeSet]
  have k: "fst ?st = map (join arrow) (snd ?st)" and d: "distinct (fst ?st)"
    and c: "\<forall>c \<in> set (snd ?st). shellChain nodeStats c"
    unfolding shellInv_def by blast+
  from k d have "distinct (snd ?st)" by (simp add: distinct_map)
  with c show ?thesis
    by (auto simp: detectShellNetworks_def shellChain_def highActivity_def isShell_iff)
qed

theorem shell_chains_witness:
  "[''H'', ''s1'', ''s2'', ''s3''] \<in>
     set (detectShellNetworks (adjList (graphOf exShell)) (statsOf exShell) (allNodes (graphOf exShell))) \<and>
   (\<exists>s. map_of (statsOf exShell) ''H'' = Some s \<and> 3 < totalTransactions s) \<and>
   (\<exists>s. map_of (statsOf exShell) ''s1'' = Some s \<and> totalTransactions s \<le> 3) \<and>
   (\<exists>s. map_of (statsOf exShell) ''s2'' = Some s \<and> totalTransactions s \<le> 3) \<and>
   distinct (detectShellNetworks (adjList (graphOf exShell)) (statsOf exShell) (allNodes (graphOf exShell)))"
proof -
  let ?c = "[''H'', ''s1'', ''s2'', ''s3'']"
  let ?out = "detectShellNetworks (adjList (graphOf exShell)) (statsOf exShell) (allNodes (graphOf exShell))"
  have m: "?c \<in> set ?out" by code_simp
  from shell_chains[of ?c "adjList (graphOf exShell)" "statsOf exShell" "allNodes (graphOf exShell)"] m
  have h: "\<exists>s. map_of (statsOf exShell) (hd ?c) = Some s \<and> 3 < totalTransactions s"
    and a: "\<forall>i. 0 < i \<and> i + 1 < length ?c \<longrightarrow>
           (\<exists>s. map_of (statsOf exShell) (?c ! i) = Some s \<and> totalTransactions s \<le> 3)"
    and d: "distinct ?out"
    by blast+
  from a[rule_format, of 1] have s1: "\<exists>s. map_of (statsOf exShell) ''s1'' = Some s \<and> totalTransactions s \<le> 3"
    by simp
  from a[rule_format, of 2] have s2: "\<exists>s. map_of (statsOf exShell) ''s2'' = Some s \<and> totalTransactions s \<le> 3"
    by simp
  from m h s1 s2 d show ?thesis by simp
qed

section \<open>Smurfing threshold\<close>

lemma fold_setAdd:
  "distinct acc \<Longrightarrow> distinct (fold setAdd xs acc) \<and> set (fold setAdd xs acc) = set acc \<union> set xs"
  by (induction xs arbitrary: acc) (auto simp: setAdd_def)

lemma mkSet_props:
  "distinct (mkSet xs)" "set (mkSet xs) = set xs" "length (mkSet xs) = card (set xs)"
proof -
  from fold_setAdd[of "[]" xs] show d: "distinct (mkSet xs)" and s: "set (mkSet xs) = set xs"
    by (simp_all add: mkSet_def)
  from distinct_card[OF d] s show "length (mkSet xs) = card (set xs)" by simp
qed

lemma groupPush_props:
  assumes "distinct (map fst m)"
  shows "distinct (map fst (groupPush key tx m))"
    and "map_of (groupPush key tx m) k =
           (if key tx = k then Some ((case map_of m k of None \<Rightarrow> [] | Some ts \<Rightarrow> ts) @ [tx])
            else map_of m k)"
  using assms by (auto simp: groupPush_def distinct_update update_conv')

lemma fold_groupPush:
  assumes "distinct (map fst m)"
  shows "distinct (map fst (fold (groupPush key) txs m)) \<and>
         map_of (fold (groupPush key) txs m) k =
           (if filter (\<lambda>t. key t = k) txs = [] then map_of m k
            else Some ((case map_of m k of None \<Rightarrow> [] | Some ts \<Rightarrow> ts) @ filter (\<lambda>t. key t = k) txs))"
  using assms
proof (induction txs arbitrary: m)
  case Nil
  then show ?case by simp
next
  case (Cons tx txs)
  from groupPush_props[OF Cons.prems, of key tx]
  have d: "distinct (map fst (groupPush key tx m))"
    and l: "map_of (groupPush key tx m) k =
           (if key tx = k then Some ((case map_of m k of None \<Rightarrow> [] | Some ts \<Rightarrow> ts) @ [tx])
            else map_of m k)"
    by blast+
  from Cons.IH[OF d] l show ?case by (auto split: option.splits)
qed

lemma groupBy_entry:
  "(k, g) \<in> set (groupBy key txs) \<longleftrightarrow> g = filter (\<lambda>t. key t = k) txs \<and> g \<noteq> []"
proof -
  from fold_groupPush[of "[]" key txs k]
  have d: "distinct (map fst (groupBy key txs))"
    and l: "map_of (groupBy key txs) k =
       (if filter (\<lambda>t. key t = k) txs = [] then None else Some (filter (\<lambda>t. key t = k) txs))"
    by (simp_all add: groupBy_def)
  have "(k, g) \<in> set (groupBy key txs) \<longleftrightarrow> map_of (groupBy key txs) k = Some g"
    using d by simp
  with l show ?thesis by auto
qed

lemma scanAnchors_Some:
  "scanAnchors other sortedTxs anchors = Some u \<Longrightarrow>
     \<exists>a \<in> set anchors. 10 \<le> length (mkSet (map other (windowTxs sortedTxs a)))"
  by (induction anchors) (auto simp: Let_def split: if_splits)

lemma scanAnchors_None:
  "scanAnchors other sortedTxs anchors = None \<Longrightarrow>
     \<forall>a \<in> set anchors. length (mkSet (map other (windowTxs sortedTxs a))) < 10"
  by (induction anchors) (auto simp: Let_def split: if_splits)

lemma window_card:
  "length (mkSet (map other (windowTxs (sort_key timestamp g) a)))
     = card (other ` {t \<in> set g. inWindow a t})"
proof -
  have "set (windowTxs (sort_key timestamp g) a) = {t \<in> set g. inWindow a t}"
    by (auto simp: windowTxs_def inWindow_def WINDOW_MS_def Let_def)
  then show ?thesis by (simp add: mkSet_props(3))
qed

lemma fanHits_iff:
  "(\<exists>h \<in> set (fanHits tag key other txs). hd (accounts h) = k) \<longleftrightarrow>
   (\<exists>a \<in> set txs. key a = k \<and>
        10 \<le> card (other ` {t \<in> set txs. key t = k \<and> inWindow a t}))"
proof -
  let ?g = "filter (\<lambda>t. key t = k) txs"
  let ?scan = "\<lambda>g. scanAnchors other (sort_key timestamp g) (sort_key timestamp g)"
  have sg: "{t \<in> set ?g. inWindow a t} = {t \<in> set txs. key t = k \<and> inWindow a t}" for a
    by auto
  have hits: "h \<in> set (fanHits tag key other txs) \<longleftrightarrow>
      (\<exists>k' g u. (k', g) \<in> set (groupBy key txs) \<and> ?scan g = Some u \<and>
                 h = \<lparr>ptype = tag, accounts = k' # u\<rparr>)" for h
  proof
    assume "h \<in> set (fanHits tag key other txs)"
    then show "\<exists>k' g u. (k', g) \<in> set (groupBy key txs) \<and> ?scan g = Some u \<and>
                 h = \<lparr>ptype = tag, accounts = k' # u\<rparr>"
      by (auto simp: fanHits_def Let_def split: option.splits)
  next
    assume "\<exists>k' g u. (k', g) \<in> set (groupBy key txs) \<and> ?scan g = Some u \<and>
                 h = \<lparr>ptype = tag, accounts = k' # u\<rparr>"
    then obtain k' g u where "(k', g) \<in> set (groupBy key txs)" "?scan g = Some u"
      "h = \<lparr>ptype = tag, accounts = k' # u\<rparr>" by blast
    then show "h \<in> set (fanHits tag key other txs)"
      by (auto simp: fanHits_def Let_def intro!: bexI[of _ "(k', g)"])
  qed
  show ?thesis
  proof
    assume "\<exists>h \<in> set (fanHits tag key other txs). hd (accounts h) = k"
    then obtain h where hin: "h \<in> set (fanHits tag key other txs)" and hk: "hd (accounts h) = k"
      by blast
    from hin obtain k' g u where g': "(k', g) \<in> set (groupBy key txs)" and sc: "?scan g = Some u"
      and h: "h = \<lparr>ptype = tag, accounts = k' # u\<rparr>"
      unfolding hits by blast
    from h hk have "k' = k" by simp
    with g' have g: "(k, g) \<in> set (groupBy key txs)" by simp
    from g have geq: "g = ?g" by (simp add: groupBy_entry)
    from scanAnchors_Some[OF sc] obtain a where a: "a \<in> set g"
      and "10 \<le> length (mkSet (map other (windowTxs (sort_key timestamp g) a)))"
      by auto
    then have "10 \<le> card (other ` {t \<in> set g. inWindow a t})" by (simp add: window_card)
    with a geq sg[of a] show "\<exists>a \<in> set txs. key a = k \<and>
        10 \<le> card (other ` {t \<in> set txs. key t = k \<and> inWindow a t})"
      by auto
  next
    assume "\<exists>a \<in> set txs. key a = k \<and>
        10 \<le> card (other ` {t \<in> set txs. key t = k \<and> inWindow a t})"
    then obtain a where a: "a \<in> set ?g"
      and c: "10 \<le> card (other ` {t \<in> set ?g. inWindow a t})"
      using sg by auto
    from a have ne: "?g \<noteq> []" by (metis empty_iff list.set(1))
    then have g: "(k, ?g) \<in> set (groupBy key txs)" by (simp add: groupBy_entry)
    have "?scan ?g \<noteq> None"
    proof
      assume "?scan ?g = None"
      from scanAnchors_None[OF this] a have
        "length (mkSet (map other (windowTxs (sort_key timestamp ?g) a))) < 10" by simp
      with c show False by (simp add: window_card)
    qed
    then obtain u where "?scan ?g = Some u" by auto
    with g have "\<lparr>ptype = tag, accounts = k # u\<rparr> \<in> set (fanHits tag key other txs)"
      unfolding hits by blast
    then show "\<exists>h \<in> set (fanHits tag key other txs). hd (accounts h) = k"
      by force
  qed
qed


text \<open>
  C7. \<open>detectSmurfing\<close> returns a \<open>fan_in\<close> hit for the receiver \<open>k\<close> exactly when some
  transfer to \<open>k\<close> anchors a 72-hour window in which the transfers to \<open>k\<close> come from at
  least 10 different senders (so 10 senders suffice and 9 in every window do not); and the
  same for \<open>fan_out\<close>, with senders and receivers exchanged.
\<close>

theorem smurfing_threshold:
  "((\<exists>h \<in> set (detectSmurfing txs). ptype h = ''fan_in'' \<and> hd (accounts h) = k) \<longleftrightarrow>
    (\<exists>a \<in> set txs. receiver_id a = k \<and>
        10 \<le> card (sender_id ` {t \<in> set txs. receiver_id t = k \<and> inWindow a t})))
   \<and>
   ((\<exists>h \<in> set (detectSmurfing txs). ptype h = ''fan_out'' \<and> hd (accounts h) = k) \<longleftrightarrow>
    (\<exists>a \<in> set txs. sender_id a = k \<and>
        10 \<le> card (receiver_id ` {t \<in> set txs. sender_id t = k \<and> inWindow a t})))"
proof -
  have tag: "(\<exists>h \<in> set (fanHits tag key other txs). ptype h = tag \<and> hd (accounts h) = k)
      \<longleftrightarrow> (\<exists>h \<in> set (fanHits tag key other txs). hd (accounts h) = k)" for tag key other
    using fanHits_ptype[of _ tag key other txs] by blast
  have no: "\<not> (\<exists>h \<in> set (fanHits tag key other txs). ptype h = tag' \<and> hd (accounts h) = k)"
    if "tag \<noteq> tag'" for tag tag' key other
    using fanHits_ptype[of _ tag key other txs] that by blast
  have i: "(\<exists>h \<in> set (detectSmurfing txs). ptype h = ''fan_in'' \<and> hd (accounts h) = k) \<longleftrightarrow>
      (\<exists>h \<in> set (fanHits ''fan_in'' receiver_id sender_id txs). hd (accounts h) = k)"
    using tag[of "''fan_in''" receiver_id sender_id] no[of "''fan_out''" "''fan_in''" sender_id receiver_id]
    by (auto simp: detectSmurfing_def)
  have o: "(\<exists>h \<in> set (detectSmurfing txs). ptype h = ''fan_out'' \<and> hd (accounts h) = k) \<longleftrightarrow>
      (\<exists>h \<in> set (fanHits ''fan_out'' sender_id receiver_id txs). hd (accounts h) = k)"
    using tag[of "''fan_out''" sender_id receiver_id] no[of "''fan_in''" "''fan_out''" receiver_id sender_id]
    by (auto simp: detectSmurfing_def)
  show ?thesis unfolding i o fanHits_iff by simp
qed

theorem smurfing_threshold_witness:
  "detectSmurfing exFan10 =
     [\<lparr>ptype = ''fan_in'',
       accounts = [''R'', ''a0'', ''a1'', ''a2'', ''a3'', ''a4'', ''a5'', ''a6'', ''a7'', ''a8'', ''a9'']\<rparr>] \<and>
   (\<exists>a \<in> set exFan10. receiver_id a = ''R'' \<and>
        10 \<le> card (sender_id ` {t \<in> set exFan10. receiver_id t = ''R'' \<and> inWindow a t})) \<and>
   detectSmurfing exFan9 = [] \<and>
   \<not> (\<exists>a \<in> set exFan9. receiver_id a = ''R'' \<and>
        10 \<le> card (sender_id ` {t \<in> set exFan9. receiver_id t = ''R'' \<and> inWindow a t}))"
proof -
  have h10: "detectSmurfing exFan10 =
     [\<lparr>ptype = ''fan_in'',
       accounts = [''R'', ''a0'', ''a1'', ''a2'', ''a3'', ''a4'', ''a5'', ''a6'', ''a7'', ''a8'', ''a9'']\<rparr>]"
    by code_simp
  have h9: "detectSmurfing exFan9 = []" by code_simp
  from h10 have "\<exists>h \<in> set (detectSmurfing exFan10). ptype h = ''fan_in'' \<and> hd (accounts h) = ''R''"
    by simp
  with smurfing_threshold[of exFan10 "''R''"]
  have a: "\<exists>a \<in> set exFan10. receiver_id a = ''R'' \<and>
        10 \<le> card (sender_id ` {t \<in> set exFan10. receiver_id t = ''R'' \<and> inWindow a t})"
    by blast
  from h9 have "\<not> (\<exists>h \<in> set (detectSmurfing exFan9). ptype h = ''fan_in'' \<and> hd (accounts h) = ''R'')"
    by simp
  with smurfing_threshold[of exFan9 "''R''"]
  have b: "\<not> (\<exists>a \<in> set exFan9. receiver_id a = ''R'' \<and>
        10 \<le> card (sender_id ` {t \<in> set exFan9. receiver_id t = ''R'' \<and> inWindow a t}))"
    by blast
  from h10 a h9 b show ?thesis by blast
qed

section \<open>Payroll classification of a zero mean\<close>










section \<open>Velocity bonus\<close>

lemma addMember_keys:
  "distinct (map fst (acctRings st)) \<Longrightarrow> distinct (map fst (acctRings (addMember r t i st)))"
  by (simp add: addMember_def distinct_update)

lemma fold_addMember_keys:
  "distinct (map fst (acctRings st)) \<Longrightarrow> distinct (map fst (acctRings (fold (addMember r t) xs st)))"
  by (induction xs arbitrary: st) (simp_all add: addMember_keys)

lemma addRing_keys:
  "distinct (map fst (acctRings st)) \<Longrightarrow>
   distinct (map fst (acctRings (addRing legit ms pt b tag st)))"
  by (simp add: addRing_def Let_def fold_addMember_keys)

lemma fold_addRing_keys:
  "distinct (map fst (acctRings st)) \<Longrightarrow>
   distinct (map fst (acctRings (fold (\<lambda>x. addRing legit (ms x) (pt x) (b x) (tag x)) xs st)))"
  by (induction xs arbitrary: st) (simp_all add: addRing_keys)

lemma buildRings_keys:
  "distinct (map fst (acctRings (buildRings legit cycles smurfing shells)))"
  unfolding buildRings_def addShellRings_def addSmurfRings_def addCycleRings_def
  by (intro fold_addRing_keys) (simp add: initRingState_def)

lemma getOr_entry:
  "distinct (map fst al) \<Longrightarrow> (k, v) \<in> set al \<Longrightarrow> getOr al k = v"
  by (simp add: getOr_def)

lemma hd_sort_mem: "xs \<noteq> [] \<Longrightarrow> hd (sort xs) \<in> set xs"
  by (metis hd_in_set set_sort set_empty)

lemma last_sort_mem: "xs \<noteq> [] \<Longrightarrow> last (sort xs) \<in> set xs"
  by (metis last_in_set set_sort set_empty)

lemma highVelocity_true:
  assumes "5 < length txs" "spanBelow (24 * 3600000) txs"
  shows "highVelocity txs"
proof -
  from assms(1) have ne: "map timestamp txs \<noteq> []" by auto
  from hd_sort_mem[OF ne] obtain t where t: "t \<in> set txs" "hd (sort (map timestamp txs)) = timestamp t"
    by auto
  from last_sort_mem[OF ne] obtain t' where t': "t' \<in> set txs" "last (sort (map timestamp txs)) = timestamp t'"
    by auto
  from assms(2) t t' have "timestamp t' - timestamp t < 24 * 3600000"
    by (simp add: spanBelow_def)
  then have "real_of_int (timestamp t' - timestamp t) / 3600000 < 24" by simp
  with assms(1) t t' show ?thesis by (simp add: highVelocity_def Let_def)
qed

lemma scoreAccounts_entry:
  assumes "sa \<in> set (scoreAccounts txs legit st)"
  shows "\<exists>ringIds. (account_id sa, ringIds) \<in> set (acctRings st) \<and>
           sa = scoreAccount txs (acctPatterns st) (account_id sa, ringIds)"
proof -
  from assms obtain i ringIds where e: "(i, ringIds) \<in> set (acctRings st)"
    and s: "sa = scoreAccount txs (acctPatterns st) (i, ringIds)"
    by (auto simp: scoreAccounts_def)
  from s have "account_id sa = i" by (simp add: scoreAccount_def Let_def)
  with e s show ?thesis by auto
qed

text \<open>
  C2, as amended. For every account of the suspicious-accounts list: if more than 5
  transfers touch the account and all the transfers that touch it lie less than 24 hours
  apart, then its detected patterns contain \<open>high_velocity\<close> and its suspicion score is
  the pattern score plus 15, clamped to 100.
\<close>

theorem velocity_bonus:
  assumes "analyzeTransactions txs = Inr res" and "sa \<in> set (suspicious_accounts res)"
    and "5 < length (touching txs (account_id sa))"
    and "spanBelow (24 * 3600000) (touching txs (account_id sa))"
  shows "''high_velocity'' \<in> set (detected_patterns sa) \<and>
         suspicion_score sa =
           min 100 (patternScore (getOr (acctPatterns (ringsOf (graphOf txs) txs)) (account_id sa))
                                 (getOr (acctRings (ringsOf (graphOf txs) txs)) (account_id sa)) + 15)"
proof -
  let ?st = "ringsOf (graphOf txs) txs"
  from assms(1,2) have "sa \<in> set (scoreAccounts txs (legitOf (graphOf txs) txs) ?st)"
    by (simp add: analyze_Inr(2))
  from scoreAccounts_entry[OF this] obtain ringIds
    where e: "(account_id sa, ringIds) \<in> set (acctRings ?st)"
      and s: "sa = scoreAccount txs (acctPatterns ?st) (account_id sa, ringIds)"
    by blast
  have "distinct (map fst (acctRings ?st))" by (simp add: ringsOf_def buildRings_keys)
  from getOr_entry[OF this e] have r: "getOr (acctRings ?st) (account_id sa) = ringIds" .
  from highVelocity_true[OF assms(3,4)] have f: "highVelocity (touching txs (account_id sa))" .
  have "detected_patterns sa = setAdd ''high_velocity'' (getOr (acctPatterns ?st) (account_id sa))"
    and "suspicion_score sa = min 100 (patternScore (getOr (acctPatterns ?st) (account_id sa)) ringIds + 15)"
    by (subst s, simp add: scoreAccount_def Let_def f)+
  with r show ?thesis by (simp add: setAdd_set)
qed


theorem velocity_bonus_witness:
  "\<lparr>account_id = ''A'', suspicion_score = 50,
     detected_patterns = [''cycle_length_3'', ''high_velocity''],
     first_ring_id = Some ''RING_001''\<rparr>
     \<in> set (suspicious_accounts (projr (analyzeTransactions exFast))) \<and>
   length (touching exFast ''A'') = 6 \<and>
   spanBelow (24 * 3600000) (touching exFast ''A'') \<and>
   (50::nat) = min 100 (patternScore (getOr (acctPatterns (ringsOf (graphOf exFast) exFast)) ''A'')
                                     (getOr (acctRings (ringsOf (graphOf exFast) exFast)) ''A'') + 15)"
proof -
  let ?sa = "\<lparr>account_id = ''A'', suspicion_score = 50,
     detected_patterns = [''cycle_length_3'', ''high_velocity''],
     first_ring_id = Some ''RING_001''\<rparr>"
  have "\<not> isl (analyzeTransactions exFast)" by code_simp
  then have h1: "analyzeTransactions exFast = Inr (projr (analyzeTransactions exFast))"
    by simp
  have h2: "?sa \<in> set (suspicious_accounts (projr (analyzeTransactions exFast)))" by code_simp
  have l: "length (touching exFast ''A'') = 6" by code_simp
  have sp: "spanBelow (24 * 3600000) (touching exFast ''A'')" by code_simp
  from l have h3: "5 < length (touching exFast (account_id ?sa))" by simp
  from sp have h4: "spanBelow (24 * 3600000) (touching exFast (account_id ?sa))" by simp
  from velocity_bonus[OF h1 h2 h3 h4] h2 l sp show ?thesis by simp
qed

text \<open>
  C2 as stated fails: six of the transfers that touch A lie within six hours, but a
  seventh is two days later; A is in the list with score 35 and without \<open>high_velocity\<close>.
\<close>

theorem velocity_bonus_counterexample:
  "\<not> isl (analyzeTransactions exVelocity) \<and>
   suspicious_accounts (projr (analyzeTransactions exVelocity)) =
     [\<lparr>account_id = ''A'', suspicion_score = 35, detected_patterns = [''cycle_length_3''],
       first_ring_id = Some ''RING_001''\<rparr>,
      \<lparr>account_id = ''B'', suspicion_score = 35, detected_patterns = [''cycle_length_3''],
       first_ring_id = Some ''RING_001''\<rparr>,
      \<lparr>account_id = ''C'', suspicion_score = 35, detected_patterns = [''cycle_length_3''],
       first_ring_id = Some ''RING_001''\<rparr>] \<and>
   length (between 0 21600000 (touching exVelocity ''A'')) = 6"
  by code_simp

section \<open>Graph nodes and ring ids\<close>

lemma getOr_update:
  "getOr (AList.update k v al) j = (if k = j then v else getOr al j)"
  by (simp add: getOr_def update_conv')

lemma addMember_acctRings:
  "getOr (acctRings (addMember rid t i st)) j =
     (if i = j then getOr (acctRings st) j @ [rid] else getOr (acctRings st) j)"
  "mapHas (acctRings (addMember rid t i st)) j \<longleftrightarrow> i = j \<or> mapHas (acctRings st) j"
  by (auto simp: addMember_def getOr_update update_conv' mapHas_def)

lemma fold_addMember_acctRings:
  "getOr (acctRings (fold (addMember rid t) xs st)) j =
     getOr (acctRings st) j @ replicate (count_list xs j) rid \<and>
   (mapHas (acctRings (fold (addMember rid t) xs st)) j \<longleftrightarrow>
     j \<in> set xs \<or> mapHas (acctRings st) j)"
proof (induction xs arbitrary: st)
  case Nil
  then show ?case by simp
next
  case (Cons x xs)
  show ?case
    by (auto simp: Cons.IH addMember_acctRings replicate_app_Cons_same)
qed

lemma addRing_inv:
  assumes "ringsInv st"
  shows "ringsInv (addRing legit ms pt b tag st)"
proof (cases "length (filter (\<lambda>i. i \<notin> set legit) ms) < 2")
  case True
  with assms show ?thesis by (simp add: addRing_def)
next
  case False
  let ?f = "filter (\<lambda>i. i \<notin> set legit) ms"
  let ?rid = "''RING_'' @ padStart 3 (CHR ''0'') (digits (ringCounter st + 1))"
  let ?r = "\<lparr>ring_id = ?rid, member_accounts = ?f, pattern_type = pt,
            risk_score = min 100 (b + length ?f * 2)\<rparr>"
  let ?st' = "st\<lparr>ringCounter := ringCounter st + 1, fraudRings := fraudRings st @ [?r]\<rparr>"
  from False have eq: "addRing legit ms pt b tag st = fold (addMember ?rid tag) ?f ?st'"
    by (simp add: addRing_def Let_def)
  have fr: "fraudRings (addRing legit ms pt b tag st) = fraudRings st @ [?r]"
    by (simp add: eq)
  from fold_addMember_acctRings[of ?rid tag ?f ?st']
  have g: "getOr (acctRings (addRing legit ms pt b tag st)) j =
             getOr (acctRings st) j @ replicate (count_list ?f j) ?rid"
    and m: "mapHas (acctRings (addRing legit ms pt b tag st)) j \<longleftrightarrow>
             j \<in> set ?f \<or> mapHas (acctRings st) j" for j
    by (simp_all add: eq)
  from assms show ?thesis
    unfolding ringsInv_def fr g m
    by (auto simp: occurrenceIds_def)
qed

lemma fold_addRing_inv:
  "ringsInv st \<Longrightarrow> ringsInv (fold (\<lambda>x. addRing legit (ms x) (pt x) (b x) (tag x)) xs st)"
  by (induction xs arbitrary: st) (simp_all add: addRing_inv)

lemma buildRings_inv: "ringsInv (buildRings legit cycles smurfing shells)"
  unfolding buildRings_def addShellRings_def addSmurfRings_def addCycleRings_def
  by (intro fold_addRing_inv) (simp add: ringsInv_def initRingState_def occurrenceIds_def getOr_def mapHas_def)

lemma graphNodes_mem:
  assumes "graphNodes legit st sus nodeStats is = Inr ns" "n \<in> set ns"
  shows "\<exists>i s. n = graphNode legit st sus i s"
  using assms
proof (induction "is" arbitrary: ns)
  case Nil
  then show ?case by simp
next
  case (Cons i rest)
  from Cons.prems(1) obtain s ns' where "map_of nodeStats i = Some s"
    and r: "graphNodes legit st sus nodeStats rest = Inr ns'"
    and ns: "ns = graphNode legit st sus i s # ns'"
    by (auto split: option.splits sum.splits)
  with Cons.prems(2) Cons.IH[OF r] show ?case by auto
qed

lemma node_flags:
  assumes "analyzeTransactions txs = Inr res" and "n \<in> set (nodes (graph res))"
  shows "suspicious n \<longleftrightarrow> (\<exists>r \<in> set (fraud_rings res). node_id n \<in> set (member_accounts r))"
    and "ring_ids n = occurrenceIds (fraud_rings res) (node_id n)"
proof -
  let ?st = "ringsOf (graphOf txs) txs"
  let ?legit = "legitOf (graphOf txs) txs"
  from analyze_Inr(3)[OF assms(1)] assms(2) graphNodes_mem
  obtain i s where n: "n = graphNode ?legit ?st (suspicious_accounts res) i s" by blast
  have inv: "ringsInv ?st" by (simp add: ringsOf_def buildRings_inv)
  have fr: "fraud_rings res = fraudRings ?st" by (rule analyze_Inr(1)[OF assms(1)])
  have nl: "i \<notin> set ?legit" if "r \<in> set (fraud_rings res)" "i \<in> set (member_accounts r)" for r
  proof -
    from rings_of_result[OF assms(1) that(1)] obtain ms pt b where "ringFrom ?legit ms pt b r"
      by blast
    with that(2) show ?thesis by (auto simp: ringFrom_def)
  qed
  from inv fr nl show "suspicious n \<longleftrightarrow> (\<exists>r \<in> set (fraud_rings res). node_id n \<in> set (member_accounts r))"
    unfolding n by (auto simp: graphNode_def ringsInv_def)
  from inv fr show "ring_ids n = occurrenceIds (fraud_rings res) (node_id n)"
    unfolding n by (simp add: graphNode_def ringsInv_def)
qed

lemma occurrenceIds_distinct:
  assumes "\<forall>r \<in> set rings. distinct (member_accounts r)"
  shows "occurrenceIds rings i = map ring_id (filter (\<lambda>r. i \<in> set (member_accounts r)) rings)"
  using assms
proof (induction rings)
  case Nil
  then show ?case by (simp add: occurrenceIds_def)
next
  case (Cons r rings)
  have "distinct xs \<Longrightarrow> count_list xs i = (if i \<in> set xs then 1 else 0)" for xs
    by (induction xs) auto
  with Cons.prems have "count_list (member_accounts r) i = (if i \<in> set (member_accounts r) then 1 else 0)"
    by simp
  with Cons show ?case by (simp add: occurrenceIds_def)
qed

lemma scanAnchors_window:
  "scanAnchors other sortedTxs anchors = Some u \<Longrightarrow>
     \<exists>a \<in> set anchors. u = mkSet (map other (windowTxs sortedTxs a))"
  by (induction anchors) (auto simp: Let_def split: if_splits)

lemma fanHits_accounts:
  assumes "h \<in> set (fanHits tag key other txs)"
  shows "\<exists>k u. accounts h = k # u \<and> distinct u \<and> set u \<subseteq> other ` {t \<in> set txs. key t = k}"
proof -
  from assms obtain k g u where g: "(k, g) \<in> set (groupBy key txs)"
    and sc: "scanAnchors other (sort_key timestamp g) (sort_key timestamp g) = Some u"
    and h: "h = \<lparr>ptype = tag, accounts = k # u\<rparr>"
    by (auto simp: fanHits_def Let_def split: option.splits)
  from g have geq: "g = filter (\<lambda>t. key t = k) txs" by (simp add: groupBy_entry)
  from scanAnchors_window[OF sc] obtain a
    where u: "u = mkSet (map other (windowTxs (sort_key timestamp g) a))" by blast
  have "set (windowTxs (sort_key timestamp g) a) \<subseteq> set g"
    by (auto simp: windowTxs_def Let_def)
  with u geq have "set u \<subseteq> other ` {t \<in> set txs. key t = k}"
    by (auto simp: mkSet_props(2))
  moreover from u have "distinct u" by (simp add: mkSet_props(1))
  ultimately show ?thesis using h by auto
qed

lemma smurfing_accounts_distinct:
  assumes "\<forall>t \<in> set txs. sender_id t \<noteq> receiver_id t" and "p \<in> set (detectSmurfing txs)"
  shows "distinct (accounts p)"
proof -
  from assms(2) consider
    (fin) "p \<in> set (fanHits ''fan_in'' receiver_id sender_id txs)"
  | (fout) "p \<in> set (fanHits ''fan_out'' sender_id receiver_id txs)"
    by (auto simp: detectSmurfing_def)
  then show ?thesis
  proof cases
    case fin
    from fanHits_accounts[OF fin] assms(1) show ?thesis by force
  next
    case fout
    from fanHits_accounts[OF fout] assms(1) show ?thesis by force
  qed
qed

lemma ringFrom_distinct:
  "ringFrom legit ms pt b r \<Longrightarrow> distinct ms \<Longrightarrow> distinct (member_accounts r)"
  by (simp add: ringFrom_def)

lemma ring_members_distinct:
  assumes "analyzeTransactions txs = Inr res" and "r \<in> set (fraud_rings res)"
    and "\<forall>t \<in> set txs. sender_id t \<noteq> receiver_id t"
  shows "distinct (member_accounts r)"
  using rings_of_result[OF assms(1,2)]
  by (auto dest: ringFrom_distinct findCycles_bounds shell_chain_accounts_distinct
        smurfing_accounts_distinct[OF assms(3)])

lemma node_ring_ids_without_self_transfers:
  assumes "analyzeTransactions txs = Inr res" and "n \<in> set (nodes (graph res))"
    and "\<forall>t \<in> set txs. sender_id t \<noteq> receiver_id t"
  shows "ring_ids n =
           map ring_id (filter (\<lambda>r. node_id n \<in> set (member_accounts r)) (fraud_rings res))"
proof -
  from ring_members_distinct[OF assms(1) _ assms(3)]
  have "\<forall>r \<in> set (fraud_rings res). distinct (member_accounts r)" by blast
  from occurrenceIds_distinct[OF this] node_flags(2)[OF assms(1,2)] show ?thesis by simp
qed

text \<open>
  C10. For every graph node, the flag \<open>suspicious\<close> holds exactly when the account is a
  member of some fraud ring of the result (\<open>node_flags\<close>), and \<open>ring_ids\<close> holds the id of
  a ring once for every occurrence of the account in the ring's member list; this is the
  list of the rings that contain the account, in the order of the rings, for every batch
  without a transfer from an account to itself (\<open>node_ring_ids_without_self_transfers\<close>).
  A fan-in hit whose receiver is one of its own senders repeats the receiver: on the batch
  \<open>exSelfFan\<close> there is one ring, the node R carries its id twice, and R receives the
  bonus for belonging to more than one ring.
\<close>

theorem self_transfer_ring_ids:
  "\<not> isl (analyzeTransactions exSelfFan) \<and>
   fraud_rings (projr (analyzeTransactions exSelfFan)) =
     [\<lparr>ring_id = ''RING_001'',
       member_accounts = [''R'', ''a1'', ''a2'', ''a3'', ''a4'', ''a5'', ''a6'', ''a7'', ''a8'', ''a9'', ''R''],
       pattern_type = ''fan_in'', risk_score = 87\<rparr>] \<and>
   node_id (nodes (graph (projr (analyzeTransactions exSelfFan))) ! 1) = ''R'' \<and>
   ring_ids (nodes (graph (projr (analyzeTransactions exSelfFan))) ! 1) = [''RING_001'', ''RING_001''] \<and>
   hd (suspicious_accounts (projr (analyzeTransactions exSelfFan))) =
     \<lparr>account_id = ''R'', suspicion_score = 40, detected_patterns = [''fan_in''],
      first_ring_id = Some ''RING_001''\<rparr>"
  by code_simp

section \<open>Cycles and their rings\<close>

lemma digit_value: "d < 10 \<Longrightarrow> of_char (''0123456789'' ! d) - 48 = (d::nat)"
proof -
  assume "d < 10"
  then have "d \<in> {0, 1, 2, 3, 4, 5, 6, 7, 8, 9}" by auto
  then show ?thesis by auto
qed

lemma decimalValue_snoc:
  "decimalValue (s @ [c]) = 10 * decimalValue s + (of_char c - 48)"
  by (simp add: decimalValue_def)

lemma decimalValue_digits: "decimalValue (digits n) = n"
proof (induction n rule: digits.induct)
  case (1 n)
  show ?case
  proof (cases "n < 10")
    case True
    then show ?thesis
      by (simp add: digits.simps[of n] decimalValue_def digit_value)
  next
    case False
    then have "digits n = digits (n div 10) @ [''0123456789'' ! (n mod 10)]"
      by (simp add: digits.simps[of n])
    with "1.IH"[OF False] show ?thesis
      by (simp add: decimalValue_snoc digit_value)
  qed
qed

lemma decimalValue_zeros: "decimalValue (replicate k (CHR ''0'') @ s) = decimalValue s"
proof -
  have "foldl (\<lambda>n c. 10 * n + (of_char c - 48)) 0 (replicate k (CHR ''0'')) = (0::nat)"
    by (induction k) simp_all
  then show ?thesis by (simp add: decimalValue_def)
qed

lemma ringName_inj: "ringName a = ringName b \<Longrightarrow> a = b"
proof -
  assume "ringName a = ringName b"
  then have "padStart 3 (CHR ''0'') (digits a) = padStart 3 (CHR ''0'') (digits b)"
    by (simp add: ringName_def)
  then have "decimalValue (padStart 3 (CHR ''0'') (digits a)) = decimalValue (padStart 3 (CHR ''0'') (digits b))"
    by simp
  then show ?thesis
    by (simp add: padStart_def decimalValue_zeros decimalValue_digits)
qed

lemma addRing_counter:
  "ringCounter (addRing legit ms pt b tag st) =
     (if length (filter (\<lambda>i. i \<notin> set legit) ms) < 2 then ringCounter st else ringCounter st + 1)"
  by (simp add: addRing_def Let_def)

lemma addRing_numbered:
  assumes "ringsNumbered st"
  shows "ringsNumbered (addRing legit ms pt b tag st)"
  using assms
  by (auto simp: ringsNumbered_def addRing_rings addRing_counter Let_def ringName_def)

lemma fold_addRing_numbered:
  "ringsNumbered st \<Longrightarrow>
   ringsNumbered (fold (\<lambda>x. addRing legit (ms x) (pt x) (b x) (tag x)) xs st)"
  by (induction xs arbitrary: st) (simp_all add: addRing_numbered)

lemma buildRings_numbered: "ringsNumbered (buildRings legit cycles smurfing shells)"
  unfolding buildRings_def addShellRings_def addSmurfRings_def addCycleRings_def
  by (intro fold_addRing_numbered) (simp add: ringsNumbered_def initRingState_def)

lemma ring_ids_distinct:
  assumes "ringsNumbered st"
  shows "distinct (map ring_id (fraudRings st))"
proof -
  have "inj_on ringName (set [1 ..< Suc (length (fraudRings st))])"
    by (auto simp: inj_on_def dest: ringName_inj)
  then have "distinct (map ringName [1 ..< Suc (length (fraudRings st))])"
    by (simp add: distinct_map)
  with assms show ?thesis by (simp add: ringsNumbered_def)
qed

lemma fold_addRing_appended:
  "\<exists>new. fraudRings (fold (\<lambda>x. addRing legit (ms x) (pt x) (b x) (tag x)) xs st)
            = fraudRings st @ new \<and>
         map member_accounts new =
           filter (\<lambda>m. 2 \<le> length m) (map (\<lambda>x. filter (\<lambda>i. i \<notin> set legit) (ms x)) xs) \<and>
         (\<forall>r \<in> set new. pattern_type r \<in> pt ` set xs)"
proof (induction xs arbitrary: st)
  case Nil
  then show ?case by simp
next
  case (Cons x xs)
  let ?st' = "addRing legit (ms x) (pt x) (b x) (tag x) st"
  let ?f = "filter (\<lambda>i. i \<notin> set legit) (ms x)"
  from Cons.IH[of ?st'] obtain new where
    n1: "fraudRings (fold (\<lambda>x. addRing legit (ms x) (pt x) (b x) (tag x)) xs ?st') = fraudRings ?st' @ new"
    and n2: "map member_accounts new =
           filter (\<lambda>m. 2 \<le> length m) (map (\<lambda>x. filter (\<lambda>i. i \<notin> set legit) (ms x)) xs)"
    and n3: "\<forall>r \<in> set new. pattern_type r \<in> pt ` set xs"
    by blast
  show ?case
  proof (cases "length ?f < 2")
    case True
    then have "fraudRings ?st' = fraudRings st" by (simp add: addRing_rings)
    with n1 n2 n3 True show ?thesis
      by (intro exI[of _ new]) auto
  next
    case False
    let ?r = "\<lparr>ring_id = ''RING_'' @ padStart 3 (CHR ''0'') (digits (ringCounter st + 1)),
          member_accounts = ?f, pattern_type = pt x,
          risk_score = min 100 (b x + length ?f * 2)\<rparr>"
    from False have "fraudRings ?st' = fraudRings st @ [?r]" by (simp add: addRing_rings Let_def)
    with n1 n2 n3 False show ?thesis
      by (intro exI[of _ "?r # new"]) auto
  qed
qed

lemma cycle_rings_of_buildRings:
  assumes "\<forall>p \<in> set smurfing. ptype p \<noteq> ''cycle''"
  shows "map member_accounts
           (filter (\<lambda>r. pattern_type r = ''cycle'') (fraudRings (buildRings legit cycles smurfing shells)))
         = filter (\<lambda>m. 2 \<le> length m) (map (filter (\<lambda>i. i \<notin> set legit)) cycles)"
proof -
  let ?s1 = "addCycleRings legit cycles initRingState"
  let ?s2 = "addSmurfRings legit smurfing ?s1"
  from fold_addRing_appended[of legit "\<lambda>c. c" "\<lambda>c. ''cycle''" "\<lambda>c. 75 + length c * 3"
      "\<lambda>c. ''cycle_length_'' @ digits (length c)" cycles initRingState]
  obtain C where c1: "fraudRings ?s1 = C"
    and c2: "map member_accounts C = filter (\<lambda>m. 2 \<le> length m) (map (filter (\<lambda>i. i \<notin> set legit)) cycles)"
    and c3: "\<forall>r \<in> set C. pattern_type r = ''cycle''"
    by (auto simp: addCycleRings_def initRingState_def)
  from fold_addRing_appended[of legit accounts ptype "\<lambda>p. 65" ptype smurfing ?s1]
  obtain S where s1: "fraudRings ?s2 = fraudRings ?s1 @ S"
    and s3: "\<forall>r \<in> set S. pattern_type r \<in> ptype ` set smurfing"
    by (auto simp: addSmurfRings_def)
  from fold_addRing_appended[of legit "\<lambda>c. c" "\<lambda>c. ''shell_network''" "\<lambda>c. 70"
      "\<lambda>c. ''shell_network''" shells ?s2]
  obtain H where h1: "fraudRings (addShellRings legit shells ?s2) = fraudRings ?s2 @ H"
    and h3: "\<forall>r \<in> set H. pattern_type r \<in> (\<lambda>c. ''shell_network'') ` set shells"
    by (auto simp: addShellRings_def)
  from s3 assms have s4: "\<forall>r \<in> set S. pattern_type r \<noteq> ''cycle''" by auto
  from h3 have h4: "\<forall>r \<in> set H. pattern_type r \<noteq> ''cycle''" by auto
  have "filter (\<lambda>r. pattern_type r = ''cycle'') (C @ S @ H) = C"
    using c3 s4 h4 by (simp add: filter_id_conv filter_empty_conv)
  with c1 c2 s1 h1 show ?thesis by (simp add: buildRings_def)
qed

text \<open>
  C5, as amended. Any rotation of a discovered cycle has the same canonical form as the
  cycle itself; exactly one returned cycle carries the key of that form, the returned cycles
  are pairwise different, and when no account id of a discovered cycle contains the
  separator, the returned cycle with that key is the canonical form itself. The rings of
  type \<open>cycle\<close> are, in order, the returned cycles that keep at least 2 accounts after the
  exclusion filter, one ring for each; a returned cycle that keeps fewer gives no ring. The
  ring ids are \<open>ringName 1\<close>, \<open>ringName 2\<close>, ... in the order of the rings, and no two rings
  share an id.
\<close>

theorem rotations_one_ring:
  assumes "analyzeTransactions txs = Inr res"
    and "c \<in> set (searchFrom (adjList (graphOf txs)) 3 5 [] (allNodes (graphOf txs)))"
  shows "normalizeCycle (rotate n c) = normalizeCycle c \<and>
         length (filter (\<lambda>u. cycleKey u = cycleKey (normalizeCycle (rotate n c)))
                   (findCycles (adjList (graphOf txs)) (allNodes (graphOf txs)) 3 5)) = 1 \<and>
         distinct (findCycles (adjList (graphOf txs)) (allNodes (graphOf txs)) 3 5) \<and>
         ((\<forall>d \<in> set (searchFrom (adjList (graphOf txs)) 3 5 [] (allNodes (graphOf txs))).
              \<forall>i \<in> set d. CHR ''|'' \<notin> set i)
            \<longrightarrow> normalizeCycle (rotate n c)
                  \<in> set (findCycles (adjList (graphOf txs)) (allNodes (graphOf txs)) 3 5)) \<and>
         map member_accounts (filter (\<lambda>r. pattern_type r = ''cycle'') (fraud_rings res)) =
           filter (\<lambda>m. 2 \<le> length m)
             (map (filter (notLegit txs))
                (findCycles (adjList (graphOf txs)) (allNodes (graphOf txs)) 3 5)) \<and>
         map ring_id (fraud_rings res) = map ringName [1 ..< Suc (length (fraud_rings res))] \<and>
         distinct (map ring_id (fraud_rings res))"
proof -
  let ?st = "ringsOf (graphOf txs) txs"
  have fr: "fraud_rings res = fraudRings ?st" by (rule analyze_Inr(1)[OF assms(1)])
  have num: "ringsNumbered ?st" by (simp add: ringsOf_def buildRings_numbered)
  have nl: "(\<lambda>i. i \<notin> set (legitOf (graphOf txs) txs)) = notLegit txs"
    by (simp add: notLegit_def fun_eq_iff)
  have "\<forall>p \<in> set (detectSmurfing txs). ptype p \<noteq> ''cycle''"
    using detectSmurfing_ptype by fastforce
  from cycle_rings_of_buildRings[OF this]
  have rings: "map member_accounts (filter (\<lambda>r. pattern_type r = ''cycle'') (fraud_rings res)) =
           filter (\<lambda>m. 2 \<le> length m)
             (map (filter (notLegit txs))
                (findCycles (adjList (graphOf txs)) (allNodes (graphOf txs)) 3 5))"
    by (simp add: fr ringsOf_def nl)
  from num have ids: "map ring_id (fraud_rings res) = map ringName [1 ..< Suc (length (fraud_rings res))]"
    by (simp add: fr ringsNumbered_def)
  from ring_ids_distinct[OF num] have dist: "distinct (map ring_id (fraud_rings res))"
    by (simp add: fr)
  from canonical_cycle_unique[OF assms(2), of n] rings ids dist show ?thesis by blast
qed

theorem rotations_one_ring_witness:
  "[''B'', ''C'', ''A'']
     \<in> set (searchFrom (adjList (graphOf exCycleB)) 3 5 [] (allNodes (graphOf exCycleB))) \<and>
   normalizeCycle (rotate 1 [''B'', ''C'', ''A'']) = [''A'', ''B'', ''C''] \<and>
   findCycles (adjList (graphOf exCycleB)) (allNodes (graphOf exCycleB)) 3 5 = [[''A'', ''B'', ''C'']] \<and>
   fraud_rings (projr (analyzeTransactions exCycleB)) =
     [\<lparr>ring_id = ''RING_001'', member_accounts = [''A'', ''B'', ''C''], pattern_type = ''cycle'',
       risk_score = 90\<rparr>] \<and>
   map member_accounts
     (filter (\<lambda>r. pattern_type r = ''cycle'') (fraud_rings (projr (analyzeTransactions exCycleB))))
     = filter (\<lambda>m. 2 \<le> length m)
         (map (filter (notLegit exCycleB))
            (findCycles (adjList (graphOf exCycleB)) (allNodes (graphOf exCycleB)) 3 5)) \<and>
   map ring_id (fraud_rings (projr (analyzeTransactions exCycleB))) = [ringName 1]"
proof -
  have "\<not> isl (analyzeTransactions exCycleB)" by code_simp
  then have h1: "analyzeTransactions exCycleB = Inr (projr (analyzeTransactions exCycleB))"
    by simp
  have m: "[''B'', ''C'', ''A'']
     \<in> set (searchFrom (adjList (graphOf exCycleB)) 3 5 [] (allNodes (graphOf exCycleB)))"
    by code_simp
  have n: "normalizeCycle [''B'', ''C'', ''A''] = [''A'', ''B'', ''C'']" by code_simp
  have f: "findCycles (adjList (graphOf exCycleB)) (allNodes (graphOf exCycleB)) 3 5 = [[''A'', ''B'', ''C'']]"
    by code_simp
  have r: "fraud_rings (projr (analyzeTransactions exCycleB)) =
     [\<lparr>ring_id = ''RING_001'', member_accounts = [''A'', ''B'', ''C''], pattern_type = ''cycle'',
       risk_score = 90\<rparr>]" by code_simp
  from rotations_one_ring[OF h1 m, of 1]
  have a: "normalizeCycle (rotate 1 [''B'', ''C'', ''A'']) = normalizeCycle [''B'', ''C'', ''A'']"
    and b: "map member_accounts
     (filter (\<lambda>r. pattern_type r = ''cycle'') (fraud_rings (projr (analyzeTransactions exCycleB))))
     = filter (\<lambda>m. 2 \<le> length m)
         (map (filter (notLegit exCycleB))
            (findCycles (adjList (graphOf exCycleB)) (allNodes (graphOf exCycleB)) 3 5))"
    and c: "map ring_id (fraud_rings (projr (analyzeTransactions exCycleB))) =
         map ringName [1 ..< Suc (length (fraud_rings (projr (analyzeTransactions exCycleB))))]"
    by blast+
  from c r have c': "map ring_id (fraud_rings (projr (analyzeTransactions exCycleB))) = [ringName 1]"
    by simp
  from m a n f r b c' show ?thesis by (simp only: simp_thms)
qed

text \<open>
  C5 as stated fails: in the batch \<open>exPayCycle\<close> the cycle A, B, C is discovered and
  returned once, but A and B are excluded as payroll accounts, one account is left, and the
  result has no ring.
\<close>

theorem rotations_one_ring_counterexample:
  "[''A'', ''B'', ''C'']
     \<in> set (searchFrom (adjList (graphOf exPayCycle)) 3 5 [] (allNodes (graphOf exPayCycle))) \<and>
   findCycles (adjList (graphOf exPayCycle)) (allNodes (graphOf exPayCycle)) 3 5
     = [[''A'', ''B'', ''C'']] \<and>
   legitOf (graphOf exPayCycle) exPayCycle = [''A'', ''B''] \<and>
   \<not> isl (analyzeTransactions exPayCycle) \<and>
   fraud_rings (projr (analyzeTransactions exPayCycle)) = []"
  by code_simp

section \<open>The empty batch\<close>

text \<open>
  C9. On the empty transfer list the analysis returns a result (no error is raised) whose
  three counters are 0 and whose lists of suspicious accounts, fraud rings, graph nodes and
  graph edges are empty.
\<close>

theorem analyzeTransactions_empty:
  "analyzeTransactions [] =
     Inr \<lparr>suspicious_accounts = [], fraud_rings = [],
          summary = \<lparr>total_accounts_analyzed = 0, suspicious_accounts_flagged = 0,
                     fraud_rings_detected = 0\<rparr>,
          graph = \<lparr>nodes = [], edges = []\<rparr>\<rparr>"
  by code_simp

end
